theory Spec2Isabelle
  imports Complex_Main "HOL-Library.Word" "HOL-Library.Log_Nat"
begin

unbundle bit_operations_syntax

section \<open>The map generator: data model\<close>

text \<open>
  The generator core (\<open>map-generator.ts\<close>) is embedded function by function.
  Quantities that the code only ever holds as integers (canvas and tile dimensions, grid
  coordinates, floors, batch counts) are \<open>int\<close>, every other JavaScript number is the
  \<open>real\<close> it denotes. The tile batch normaliser computes with fractional counts in
  double precision: there every sum, product, quotient and difference is rounded as IEEE
  754 binary64 does, and a sum may overflow to Infinity. In the placement engine and the
  tone mapping numbers are exact: the rounding error of doubles, NaN and the infinities
  are not part of that part of the model. \<open>Math.round v\<close> is \<open>\<lfloor>v + 1/2\<rfloor>\<close> and
  \<open>Math.floor (a / 2)\<close> on integers is \<open>a div 2\<close>. A JavaScript string is its
  sequence of UTF-16 code units.
\<close>

type_synonym jsstring = "16 word list"

datatype MapMode = Center | Weighted | Islands | DualContinents | Ring

record TileSpec =
  spec_w :: int
  spec_h :: int
  spec_count :: real

record TileBatch =
  batch_w :: int
  batch_h :: int
  batch_count :: int

record GenerationParams =
  p_width :: int
  p_height :: int
  p_tileString :: jsstring
  p_ka :: real
  p_cap :: real
  p_mode :: MapMode
  p_rings :: int
  p_ringStart :: real
  p_ringEnd :: real
  p_seed :: jsstring
  p_logTone :: bool
  p_brownCap :: real
  p_bgAlpha :: int
  p_islands :: int
  p_islandRFrac :: real
  p_rotate :: bool
  p_polish :: bool
  p_n22 :: real
  p_n21 :: real
  p_n11 :: real

record Point =
  pt_x :: int
  pt_y :: int

record Color =
  col_r :: int
  col_g :: int
  col_b :: int
  col_a :: int

definition js_round :: "real \<Rightarrow> int" where
  "js_round v = \<lfloor>v + 1 / 2\<rfloor>"

definition clampInt :: "int \<Rightarrow> int \<Rightarrow> int \<Rightarrow> int" where
  "clampInt v minVal maxVal =
     (if v < minVal then minVal else if v > maxVal then maxVal else v)"

definition clampFloat :: "real \<Rightarrow> real \<Rightarrow> real \<Rightarrow> real" where
  "clampFloat v minVal maxVal =
     (if v < minVal then minVal else if v > maxVal then maxVal else v)"

section \<open>Seed derivation\<close>

text \<open>
  \<open>seedFromString\<close> folds the code units of the seed into a \<open>BigInt\<close>, which never
  wraps, masks the result with \<open>0x7fffffffffffffff\<close> and converts it with
  \<open>Number\<close>. \<open>Number\<close> of a \<open>BigInt\<close> is the nearest double, ties to even: below
  \<open>2 ^ 53\<close> it is exact, above it keeps the 53 leading bits. \<open>Number_of_BigInt\<close>
  gives the exact value of that double for the arguments whose double is finite
  (magnitude below \<open>2 ^ 1024\<close>); the code applies it to values below \<open>2 ^ 63\<close>.
  With an empty seed the code reads the clock, which is the argument \<open>now\<close>.
\<close>

definition round53 :: "int \<Rightarrow> int" where
  "round53 n =
     (if n < 2 ^ 53 then n
      else let sh = nat (bitlen n - 53);
               q = n div 2 ^ sh;
               r = n mod 2 ^ sh;
               half = 2 ^ (sh - 1)
           in if r > half \<or> (r = half \<and> odd q) then (q + 1) * 2 ^ sh else q * 2 ^ sh)"

definition Number_of_BigInt :: "int \<Rightarrow> int" where
  "Number_of_BigInt n = (if n < 0 then - round53 (- n) else round53 n)"

definition fnv_offset :: int where
  "fnv_offset = 1469598103934665603"

definition fnv_prime :: int where
  "fnv_prime = 1099511628211"

definition seed_mask :: int where
  "seed_mask = 9223372036854775807"

definition hash_step :: "int \<Rightarrow> 16 word \<Rightarrow> int" where
  "hash_step h c = (h XOR uint c) * fnv_prime"

definition hash_loop :: "jsstring \<Rightarrow> int" where
  "hash_loop seed = foldl hash_step fnv_offset seed"

definition seedFromString :: "int \<Rightarrow> jsstring \<Rightarrow> int" where
  "seedFromString now seed =
     (if seed = [] then now else Number_of_BigInt (hash_loop seed AND seed_mask))"

text \<open>
  The hash the specification names, on 64-bit words: FNV-1a with the offset and the
  prime above, one XOR and one multiplication modulo \<open>2 ^ 64\<close> for each code unit.
\<close>

definition fnv1a64_step :: "64 word \<Rightarrow> 16 word \<Rightarrow> 64 word" where
  "fnv1a64_step h c = (h XOR ucast c) * 1099511628211"

definition fnv1a64 :: "jsstring \<Rightarrow> 64 word" where
  "fnv1a64 seed = foldl fnv1a64_step 1469598103934665603 seed"

definition masked_hash :: "jsstring \<Rightarrow> int" where
  "masked_hash seed = uint (fnv1a64 seed AND 9223372036854775807)"

section \<open>The random number generator\<close>

text \<open>
  Class \<open>RNG\<close> wraps the \<open>seedrandom\<close> library and only calls its \<open>quick()\<close>,
  which returns a 32-bit unsigned integer divided by \<open>2 ^ 32\<close>. The library is not
  part of the repository: the 32-bit integers it hands out for a seed are the field
  \<open>rng_uniform\<close>, \<open>rng_pos\<close> counts the draws made so far and \<open>rng_spare\<close> is
  the cached second normal value. The same \<open>RNG\<close> object is used by \<open>placeTiles\<close>
  and by the \<open>Generator\<close>, so it is threaded through both as one state.
\<close>

record RNG =
  rng_uniform :: "nat \<Rightarrow> 32 word"
  rng_pos :: nat
  rng_spare :: "real option"

definition quick :: "RNG \<Rightarrow> real \<times> RNG" where
  "quick rng =
     (real (unat (rng_uniform rng (rng_pos rng))) / 2 ^ 32,
      rng\<lparr>rng_pos := Suc (rng_pos rng)\<rparr>)"

definition intn :: "int \<Rightarrow> RNG \<Rightarrow> int \<times> RNG" where
  "intn n rng =
     (if n \<le> 0 then (0, rng)
      else let (u, rng1) = quick rng in (\<lfloor>u * real_of_int n\<rfloor>, rng1))"

definition float :: "RNG \<Rightarrow> real \<times> RNG" where
  "float rng = quick rng"

definition EPSILON :: real where
  "EPSILON = 1 / 2 ^ 52"

definition normFloat64 :: "RNG \<Rightarrow> real \<times> RNG" where
  "normFloat64 rng =
     (case rng_spare rng of
        Some v \<Rightarrow> (v, rng\<lparr>rng_spare := None\<rparr>)
      | None \<Rightarrow>
          let (u0, rng1) = float rng;
              u = (if u0 = 0 then EPSILON else u0);
              (v0, rng2) = float rng1;
              v = (if v0 = 0 then EPSILON else v0);
              mag = sqrt (- 2 * ln u);
              z0 = mag * cos (2 * pi * v);
              z1 = mag * sin (2 * pi * v)
          in (z0, rng2\<lparr>rng_spare := Some z1\<rparr>))"

section \<open>The placement engine\<close>

record Generator =
  g_width :: int
  g_height :: int
  g_mode :: MapMode
  g_rings :: int
  g_ringStart :: real
  g_ringEnd :: real
  g_islands :: int
  g_islandRFrac :: real
  g_islandCenters :: "Point list"
  g_continentCenters :: "Point list"
  g_ringBoundaries :: "real list"
  g_totalArea :: real
  g_sumX :: real
  g_sumY :: real

definition mkPoint :: "int \<Rightarrow> int \<Rightarrow> Point" where
  "mkPoint a b = \<lparr>pt_x = a, pt_y = b\<rparr>"

subsection \<open>Anchors\<close>

definition islandCenter :: "int \<Rightarrow> int \<Rightarrow> int \<Rightarrow> RNG \<Rightarrow> Point \<times> RNG" where
  "islandCenter margin width height rng =
     (let (dx, rng1) = (if width - 2 * margin > 0 then intn (width - 2 * margin) rng
                        else (0, rng));
          (dy, rng2) = (if height - 2 * margin > 0 then intn (height - 2 * margin) rng1
                        else (0, rng1))
      in (mkPoint (margin + dx) (margin + dy), rng2))"

primrec islandCentersLoop :: "nat \<Rightarrow> int \<Rightarrow> int \<Rightarrow> int \<Rightarrow> RNG \<Rightarrow> Point list \<times> RNG" where
  "islandCentersLoop 0 margin width height rng = ([], rng)"
| "islandCentersLoop (Suc k) margin width height rng =
     (case islandCenter margin width height rng of
        (c, rng1) \<Rightarrow>
          (case islandCentersLoop k margin width height rng1 of
             (rest, rng2) \<Rightarrow> (c # rest, rng2)))"

definition initIslands :: "Generator \<Rightarrow> RNG \<Rightarrow> Generator \<times> RNG" where
  "initIslands g rng =
     (let count = max 1 (if g_islands g = 0 then 3 else g_islands g);
          minDim = min (g_width g) (g_height g);
          margin = \<lfloor>real_of_int minDim * (1 / 10)\<rfloor>;
          (centers, rng1) = islandCentersLoop (nat count) margin (g_width g) (g_height g) rng
      in (g\<lparr>g_islandCenters := centers\<rparr>, rng1))"

definition initContinents :: "Generator \<Rightarrow> Generator" where
  "initContinents g =
     g\<lparr>g_continentCenters :=
         [mkPoint (g_width g div 4) (g_height g div 2),
          mkPoint ((3 * g_width g) div 4) (g_height g div 2)]\<rparr>"

text \<open>
  \<open>initRingBands\<close>: \<open>ringBounds\<close> is the adjustment of the two bounds at the head of
  the method, \<open>ringStep\<close> is one pass of its \<open>for\<close> loop, whose state is the table
  and \<open>prev\<close>. \<open>rings\<close> is an integer: \<open>new Array\<close> raises on any other length.
\<close>

definition ringBounds :: "real \<Rightarrow> real \<Rightarrow> real \<times> real" where
  "ringBounds ringStart ringEnd =
     (let start = clampFloat ringStart 0 1;
          end0 = clampFloat ringEnd 0 1
      in if end0 \<le> start
         then (if end0 \<ge> 1 then (clampFloat (end0 - 1 / 10) 0 1, end0)
               else (start, clampFloat (start + 1 / 10) 0 1))
         else (start, end0))"

definition ringStep :: "nat \<Rightarrow> real \<Rightarrow> real \<Rightarrow> real \<Rightarrow> nat \<Rightarrow> real list \<times> real \<Rightarrow> real list \<times> real" where
  "ringStep segments start end1 step i st =
     (let (bounds, prev) = st;
          val0 = (if i = 1 then start
                  else if i = segments then end1
                  else start + (real i - 1) * step);
          val = clampFloat val0 prev 1
      in (bounds[i := val], val))"

definition initRingBands :: "Generator \<Rightarrow> Generator" where
  "initRingBands g =
     (let (start, end0) = ringBounds (g_ringStart g) (g_ringEnd g);
          segments = nat (max 1 (g_rings g));
          g1 = g\<lparr>g_ringStart := start, g_ringEnd := end0\<rparr>;
          bounds0 = replicate (segments + 1) (0::real)
      in if segments = 1
         then g1\<lparr>g_ringBoundaries := bounds0[1 := max start (min 1 end0)]\<rparr>
         else
           let spanv0 = end0 - start;
               spanv = (if spanv0 \<le> 0 then 1 / 10 else spanv0);
               end1 = (if spanv0 \<le> 0 then clampFloat (start + spanv) start 1 else end0);
               step = spanv / (real segments - 1)
           in g1\<lparr>g_ringBoundaries :=
                  fst (fold (ringStep segments start end1 step) [1..<Suc segments] (bounds0, 0))\<rparr>)"

definition newGenerator :: "GenerationParams \<Rightarrow> RNG \<Rightarrow> Generator \<times> RNG" where
  "newGenerator params rng =
     (let g = \<lparr>g_width = p_width params, g_height = p_height params, g_mode = p_mode params,
               g_rings = p_rings params, g_ringStart = p_ringStart params,
               g_ringEnd = p_ringEnd params, g_islands = p_islands params,
               g_islandRFrac = p_islandRFrac params, g_islandCenters = [],
               g_continentCenters = [], g_ringBoundaries = [],
               g_totalArea = 0, g_sumX = 0, g_sumY = 0\<rparr>
      in case g_mode g of
           Islands \<Rightarrow> initIslands g rng
         | DualContinents \<Rightarrow> (initContinents g, rng)
         | Ring \<Rightarrow> (initRingBands g, rng)
         | _ \<Rightarrow> (g, rng))"

subsection \<open>Positions\<close>

definition randomPlacement :: "Generator \<Rightarrow> int \<Rightarrow> int \<Rightarrow> RNG \<Rightarrow> Point \<times> RNG" where
  "randomPlacement g tw th rng =
     (let spanX = max 0 (g_width g - tw);
          spanY = max 0 (g_height g - th);
          (x, rng1) = (if spanX > 0 then intn (spanX + 1) rng else (0, rng));
          (y, rng2) = (if spanY > 0 then intn (spanY + 1) rng1 else (0, rng1))
      in (mkPoint x y, rng2))"

definition ringWeight :: "Generator \<Rightarrow> real \<Rightarrow> real \<Rightarrow> real \<Rightarrow> nat \<Rightarrow> real" where
  "ringWeight g start end1 spanv i =
     (let rawInner = g_ringBoundaries g ! i;
          rawOuter = g_ringBoundaries g ! (i + 1);
          inner = max rawInner start;
          outer = min rawOuter end1
      in if outer \<le> inner then 0
         else let mid = (inner + outer) / 2;
                  normalized = clampFloat ((mid - start) / spanv) 0 1
              in 2 / 100 + normalized powr (3 / 2))"

fun pickSegment :: "real \<Rightarrow> real list \<Rightarrow> nat \<Rightarrow> int \<Rightarrow> int" where
  "pickSegment threshold [] i fallback = fallback"
| "pickSegment threshold (wt # ws) i fallback =
     (if threshold - wt \<le> 0 then int i
      else pickSegment (threshold - wt) ws (Suc i) fallback)"

definition selectRingSegment :: "Generator \<Rightarrow> RNG \<Rightarrow> int \<times> RNG" where
  "selectRingSegment g rng =
     (let segments = int (length (g_ringBoundaries g)) - 1
      in if segments \<le> 0 then (- 1, rng)
         else
           let start = clampFloat (g_ringStart g) 0 1;
               end1 = clampFloat (g_ringEnd g) start 1;
               spanv = max (end1 - start) (1 / 1000);
               weights = map (ringWeight g start end1 spanv) [0..<nat segments];
               totalWeight = sum_list weights
           in if totalWeight \<le> 0 then (segments - 1, rng)
              else let (u, rng1) = float rng
                   in (pickSegment (u * totalWeight) weights 0 (segments - 1), rng1))"

definition ringPoint :: "Generator \<Rightarrow> int \<Rightarrow> int \<Rightarrow> real \<Rightarrow> real \<Rightarrow> Point" where
  "ringPoint g tw th radiusFrac theta =
     (let radiusMax = real_of_int (min (g_width g) (g_height g)) / 2;
          radius = radiusFrac * radiusMax;
          cx = real_of_int (g_width g) / 2 + cos theta * radius;
          cy = real_of_int (g_height g) / 2 + sin theta * radius
      in mkPoint (clampInt (js_round cx - tw div 2) 0 (g_width g - tw))
                 (clampInt (js_round cy - th div 2) 0 (g_height g - th)))"

definition ringAttempt :: "Generator \<Rightarrow> int \<Rightarrow> int \<Rightarrow> RNG \<Rightarrow> Point option \<times> RNG" where
  "ringAttempt g tw th rng =
     (let (segment, rng1) = selectRingSegment g rng
      in if segment < 0 \<or> segment + 1 \<ge> int (length (g_ringBoundaries g))
         then (None, rng1)
         else
           let inner = max (g_ringBoundaries g ! nat segment) (g_ringStart g);
               outer = min (max inner (g_ringBoundaries g ! nat (segment + 1))) (g_ringEnd g)
           in if outer \<le> inner then (None, rng1)
              else let (u, rng2) = float rng1;
                       (v, rng3) = float rng2
                   in (Some (ringPoint g tw th (inner + u * (outer - inner)) (v * 2 * pi)),
                       rng3))"

text \<open>
  The retry loops of the placement policies run a body a fixed number of times; the body
  is a function of its own that returns \<open>None\<close> where the source continues with the
  next attempt.
\<close>

primrec ringAttempts :: "nat \<Rightarrow> Generator \<Rightarrow> int \<Rightarrow> int \<Rightarrow> RNG \<Rightarrow> Point option \<times> RNG" where
  "ringAttempts 0 g tw th rng = (None, rng)"
| "ringAttempts (Suc k) g tw th rng =
     (case ringAttempt g tw th rng of
        (Some p, rng1) \<Rightarrow> (Some p, rng1)
      | (None, rng1) \<Rightarrow> ringAttempts k g tw th rng1)"

definition positionRing :: "Generator \<Rightarrow> int \<Rightarrow> int \<Rightarrow> RNG \<Rightarrow> Point \<times> RNG" where
  "positionRing g tw th rng =
     (case ringAttempts 12 g tw th rng of
        (Some p, rng1) \<Rightarrow> (p, rng1)
      | (None, rng1) \<Rightarrow>
          let fallbackSpan = max (g_ringEnd g - g_ringStart g) 0
          in if fallbackSpan > 0
             then let (u, rng2) = float rng1;
                      (v, rng3) = float rng2
                  in (ringPoint g tw th (g_ringStart g + u * fallbackSpan) (v * 2 * pi), rng3)
             else randomPlacement g tw th rng1)"

definition centerFallback :: "Generator \<Rightarrow> int \<Rightarrow> int \<Rightarrow> Point" where
  "centerFallback g tw th =
     mkPoint
       (clampInt (js_round (real_of_int (g_width g) / 2 - real_of_int tw / 2)) 0 (g_width g - tw))
       (clampInt (js_round (real_of_int (g_height g) / 2 - real_of_int th / 2)) 0 (g_height g - th))"

definition diskAttempt :: "Generator \<Rightarrow> int \<Rightarrow> int \<Rightarrow> real \<Rightarrow> real \<Rightarrow> RNG \<Rightarrow> Point option \<times> RNG" where
  "diskAttempt g tw th maxOffsetX maxOffsetY rng =
     (let (u, rng1) = float rng;
          theta = u * 2 * pi;
          (v, rng2) = float rng1;
          radiusFactor = sqrt v;
          dx = cos theta * maxOffsetX * radiusFactor;
          dy = sin theta * maxOffsetY * radiusFactor;
          tileCenterX = clampFloat (real_of_int (g_width g) / 2 + dx) (real_of_int tw / 2)
                          (real_of_int (g_width g) - real_of_int tw / 2);
          tileCenterY = clampFloat (real_of_int (g_height g) / 2 + dy) (real_of_int th / 2)
                          (real_of_int (g_height g) - real_of_int th / 2);
          x = clampInt (js_round (tileCenterX - real_of_int tw / 2)) 0 (g_width g - tw);
          y = clampInt (js_round (tileCenterY - real_of_int th / 2)) 0 (g_height g - th)
      in if x \<ge> 0 \<and> x \<le> g_width g - tw \<and> y \<ge> 0 \<and> y \<le> g_height g - th
         then (Some (mkPoint x y), rng2)
         else (None, rng2))"

primrec diskAttempts :: "nat \<Rightarrow> Generator \<Rightarrow> int \<Rightarrow> int \<Rightarrow> real \<Rightarrow> real \<Rightarrow> RNG \<Rightarrow> Point option \<times> RNG" where
  "diskAttempts 0 g tw th maxOffsetX maxOffsetY rng = (None, rng)"
| "diskAttempts (Suc k) g tw th maxOffsetX maxOffsetY rng =
     (case diskAttempt g tw th maxOffsetX maxOffsetY rng of
        (Some p, rng1) \<Rightarrow> (Some p, rng1)
      | (None, rng1) \<Rightarrow> diskAttempts k g tw th maxOffsetX maxOffsetY rng1)"

definition sampleCenteredDisk :: "Generator \<Rightarrow> int \<Rightarrow> int \<Rightarrow> real \<Rightarrow> RNG \<Rightarrow> Point \<times> RNG" where
  "sampleCenteredDisk g tw th fraction rng =
     (let regionRadiusX = min (real_of_int (g_width g) / 2) (real_of_int (g_width g) * fraction / 2);
          regionRadiusY = min (real_of_int (g_height g) / 2) (real_of_int (g_height g) * fraction / 2);
          maxOffsetX = max 0 (min regionRadiusX (real_of_int (g_width g) / 2 - real_of_int tw / 2));
          maxOffsetY = max 0 (min regionRadiusY (real_of_int (g_height g) / 2 - real_of_int th / 2))
      in if maxOffsetX = 0 \<and> maxOffsetY = 0 then (centerFallback g tw th, rng)
         else case diskAttempts 16 g tw th maxOffsetX maxOffsetY rng of
                (Some p, rng1) \<Rightarrow> (p, rng1)
              | (None, rng1) \<Rightarrow> (centerFallback g tw th, rng1))"

definition positionCenter :: "Generator \<Rightarrow> int \<Rightarrow> int \<Rightarrow> RNG \<Rightarrow> Point \<times> RNG" where
  "positionCenter g tw th rng =
     (let (roll, rng1) = float rng
      in if roll < 7 / 10 then sampleCenteredDisk g tw th (3 / 10) rng1
         else if roll < 99 / 100 then sampleCenteredDisk g tw th (1 / 2) rng1
         else randomPlacement g tw th rng1)"

definition hypot :: "real \<Rightarrow> real \<Rightarrow> real" where
  "hypot a b = sqrt (a * a + b * b)"

definition centerOfMass :: "Generator \<Rightarrow> (real \<times> real) option" where
  "centerOfMass g =
     (if g_totalArea g \<le> 0 then None
      else Some (g_sumX g / g_totalArea g, g_sumY g / g_totalArea g))"

definition distanceAfterPlacement :: "Generator \<Rightarrow> int \<Rightarrow> int \<Rightarrow> int \<Rightarrow> int \<Rightarrow> real \<Rightarrow> real \<Rightarrow> real" where
  "distanceAfterPlacement g x y tw th targetX targetY =
     (let area = tw * th
      in if area \<le> 0
         then (case centerOfMass g of
                 None \<Rightarrow> 0
               | Some (cx, cy) \<Rightarrow> hypot (cx - targetX) (cy - targetY))
         else
           let total = g_totalArea g + real_of_int area;
               tileCenterX = real_of_int x + real_of_int tw / 2;
               tileCenterY = real_of_int y + real_of_int th / 2;
               newCx = (g_sumX g + tileCenterX * real_of_int area) / total;
               newCy = (g_sumY g + tileCenterY * real_of_int area) / total
           in hypot (newCx - targetX) (newCy - targetY))"

text \<open>
  \<open>positionWeighted\<close> keeps the best candidate as \<open>(bestX, bestY, bestScore)\<close>.
  \<open>currentDist\<close> is \<open>None\<close> for \<open>Number.POSITIVE_INFINITY\<close>. One pass of the loop
  over the random candidates returns the new best candidate and whether the loop breaks.
\<close>

definition weightedAttempt :: "Generator \<Rightarrow> int \<Rightarrow> int \<Rightarrow> real \<Rightarrow> real \<Rightarrow> real option \<Rightarrow> int \<times> int \<times> real \<Rightarrow> RNG \<Rightarrow> ((int \<times> int \<times> real) \<times> bool) \<times> RNG" where
  "weightedAttempt g tw th targetX targetY currentDist best rng =
     (let (p, rng1) = randomPlacement g tw th rng;
          score = distanceAfterPlacement g (pt_x p) (pt_y p) tw th targetX targetY
      in if score < snd (snd best)
         then (((pt_x p, pt_y p, score),
                (case currentDist of None \<Rightarrow> False | Some d \<Rightarrow> score \<le> d * (7 / 10))), rng1)
         else ((best, False), rng1))"

primrec weightedAttempts :: "nat \<Rightarrow> Generator \<Rightarrow> int \<Rightarrow> int \<Rightarrow> real \<Rightarrow> real \<Rightarrow> real option \<Rightarrow> int \<times> int \<times> real \<Rightarrow> RNG \<Rightarrow> (int \<times> int \<times> real) \<times> RNG" where
  "weightedAttempts 0 g tw th targetX targetY currentDist best rng = (best, rng)"
| "weightedAttempts (Suc k) g tw th targetX targetY currentDist best rng =
     (case weightedAttempt g tw th targetX targetY currentDist best rng of
        ((best1, True), rng1) \<Rightarrow> (best1, rng1)
      | ((best1, False), rng1) \<Rightarrow>
          weightedAttempts k g tw th targetX targetY currentDist best1 rng1)"

definition positionWeighted :: "Generator \<Rightarrow> int \<Rightarrow> int \<Rightarrow> RNG \<Rightarrow> Point \<times> RNG" where
  "positionWeighted g tw th rng =
     (let targetX = real_of_int (g_width g) / 2;
          targetY = real_of_int (g_height g) / 2;
          centerX = clampInt (js_round targetX - tw div 2) 0 (g_width g - tw);
          centerY = clampInt (js_round targetY - th div 2) 0 (g_height g - th);
          best0 = (centerX, centerY,
                   distanceAfterPlacement g centerX centerY tw th targetX targetY);
          (currentDist, best1) =
            (case centerOfMass g of
               None \<Rightarrow> (None, best0)
             | Some (cx, cy) \<Rightarrow>
                 let mirrorCenterX = targetX * 2 - cx;
                     mirrorCenterY = targetY * 2 - cy;
                     mirrorX = clampInt (js_round mirrorCenterX - tw div 2) 0 (g_width g - tw);
                     mirrorY = clampInt (js_round mirrorCenterY - th div 2) 0 (g_height g - th);
                     mirrorScore = distanceAfterPlacement g mirrorX mirrorY tw th targetX targetY
                 in (Some (hypot (cx - targetX) (cy - targetY)),
                     if mirrorScore < snd (snd best0) then (mirrorX, mirrorY, mirrorScore)
                     else best0));
          (best2, rng1) = weightedAttempts 24 g tw th targetX targetY currentDist best1 rng
      in (mkPoint (fst best2) (fst (snd best2)), rng1))"

definition positionIslands :: "Generator \<Rightarrow> int \<Rightarrow> int \<Rightarrow> RNG \<Rightarrow> Point \<times> RNG" where
  "positionIslands g tw th rng =
     (if g_islandCenters g = [] then positionCenter g tw th rng
      else
        let (ci, rng1) = intn (int (length (g_islandCenters g))) rng;
            center = g_islandCenters g ! nat ci;
            radiusFrac = max (if g_islandRFrac g = 0 then 1 / 4 else g_islandRFrac g) (5 / 100);
            maxRadius = radiusFrac * real_of_int (min (g_width g) (g_height g));
            (u, rng2) = float rng1;
            radius = u * maxRadius;
            (v, rng3) = float rng2;
            theta = v * 2 * pi;
            cx = real_of_int (pt_x center) + cos theta * radius;
            cy = real_of_int (pt_y center) + sin theta * radius
        in (mkPoint (clampInt (js_round cx - tw div 2) 0 (g_width g - tw))
                    (clampInt (js_round cy - th div 2) 0 (g_height g - th)), rng3))"

definition continentAttempt :: "Generator \<Rightarrow> int \<Rightarrow> int \<Rightarrow> Point \<Rightarrow> real \<Rightarrow> real \<Rightarrow> RNG \<Rightarrow> Point option \<times> RNG" where
  "continentAttempt g tw th center sigmaX sigmaY rng =
     (let (n1, rng1) = normFloat64 rng;
          x = js_round (real_of_int (pt_x center) + n1 * sigmaX);
          (n2, rng2) = normFloat64 rng1;
          y = js_round (real_of_int (pt_y center) + n2 * sigmaY)
      in if x \<ge> 0 \<and> x \<le> g_width g - tw \<and> y \<ge> 0 \<and> y \<le> g_height g - th
         then (Some (mkPoint x y), rng2)
         else (None, rng2))"

primrec continentAttempts :: "nat \<Rightarrow> Generator \<Rightarrow> int \<Rightarrow> int \<Rightarrow> Point \<Rightarrow> real \<Rightarrow> real \<Rightarrow> RNG \<Rightarrow> Point option \<times> RNG" where
  "continentAttempts 0 g tw th center sigmaX sigmaY rng = (None, rng)"
| "continentAttempts (Suc k) g tw th center sigmaX sigmaY rng =
     (case continentAttempt g tw th center sigmaX sigmaY rng of
        (Some p, rng1) \<Rightarrow> (Some p, rng1)
      | (None, rng1) \<Rightarrow> continentAttempts k g tw th center sigmaX sigmaY rng1)"

definition positionDualContinents :: "Generator \<Rightarrow> int \<Rightarrow> int \<Rightarrow> RNG \<Rightarrow> Point \<times> RNG" where
  "positionDualContinents g tw th rng =
     (if g_continentCenters g = [] then positionCenter g tw th rng
      else
        let (ci, rng1) = intn (int (length (g_continentCenters g))) rng;
            center = g_continentCenters g ! nat ci;
            sigmaX = real_of_int (g_width g) / 10;
            sigmaY = real_of_int (g_height g) / 6
        in case continentAttempts 6 g tw th center sigmaX sigmaY rng1 of
             (Some p, rng2) \<Rightarrow> (p, rng2)
           | (None, rng2) \<Rightarrow> positionCenter g tw th rng2)"

definition positionForTile :: "Generator \<Rightarrow> int \<Rightarrow> int \<Rightarrow> RNG \<Rightarrow> Point \<times> RNG" where
  "positionForTile g tw th rng =
     (if tw \<ge> g_width g \<or> th \<ge> g_height g then (mkPoint 0 0, rng)
      else case g_mode g of
             Center \<Rightarrow> positionCenter g tw th rng
           | Weighted \<Rightarrow> positionWeighted g tw th rng
           | Islands \<Rightarrow> positionIslands g tw th rng
           | DualContinents \<Rightarrow> positionDualContinents g tw th rng
           | Ring \<Rightarrow> positionRing g tw th rng)"

definition recordPlacement :: "Generator \<Rightarrow> int \<Rightarrow> int \<Rightarrow> int \<Rightarrow> int \<Rightarrow> Generator" where
  "recordPlacement g x y tw th =
     (let area = tw * th
      in if area \<le> 0 then g
         else
           let centerX = real_of_int x + real_of_int tw / 2;
               centerY = real_of_int y + real_of_int th / 2
           in g\<lparr>g_totalArea := g_totalArea g + real_of_int area,
                g_sumX := g_sumX g + centerX * real_of_int area,
                g_sumY := g_sumY g + centerY * real_of_int area\<rparr>)"

section \<open>Double precision arithmetic\<close>

text \<open>
  The tile batch normaliser adds, multiplies, divides and subtracts fractional counts,
  and what it returns depends on how these operations round. They are IEEE 754 binary64
  operations: the exact result, rounded to the nearest double, to the one with the even
  significand when two are equally near. A finite double is modelled by the real number
  it denotes.

  \<open>rne\<close> rounds to the nearest integer, ties to even. \<open>expo a\<close> is the exponent of the
  binade of a positive \<open>a\<close>, not below the smallest normal exponent -1022, \<open>ulp a\<close> the
  distance between neighbouring doubles there (doubles have 53-bit significands), and
  \<open>pnear a\<close> the multiple of \<open>ulp a\<close> nearest to \<open>a\<close>. \<open>nearest\<close> extends this to all
  reals by symmetry; it is rounding in a format without a largest exponent. \<open>dround\<close>
  is the rounding of binary64: a result of magnitude \<open>2^1024\<close> or more is an infinity.
  The two zeros are not told apart: the normaliser never divides by a zero and never
  looks at the sign of one.
\<close>

definition rne :: "real \<Rightarrow> int" where
  "rne q =
     (let f = \<lfloor>q\<rfloor>; d = q - real_of_int f
      in if d < 1 / 2 then f else if d > 1 / 2 then f + 1 else if even f then f else f + 1)"

definition expo :: "real \<Rightarrow> int" where
  "expo a = max \<lfloor>log 2 a\<rfloor> (- 1022)"

definition ulp :: "real \<Rightarrow> real" where
  "ulp a = 2 powi (expo a - 52)"

definition pnear :: "real \<Rightarrow> real" where
  "pnear a = real_of_int (rne (a / ulp a)) * ulp a"

definition nearest :: "real \<Rightarrow> real" where
  "nearest x = (if x = 0 then 0 else sgn x * pnear \<bar>x\<bar>)"

datatype double = Finite real | PInf | NInf | NaN

definition dround :: "real \<Rightarrow> double" where
  "dround x =
     (let r = nearest x
      in if 2 ^ 1024 \<le> r then PInf else if r \<le> - (2 ^ 1024) then NInf else Finite r)"

text \<open>
  The operations on doubles that the normaliser applies to values that may be infinite:
  \<open>acc + v\<close> and \<open>a - b\<close>, the comparison \<open>a < b\<close>, \<open>Math.min\<close> and \<open>Math.round\<close>.
  In \<open>dplus\<close> the second operand is always finite.
\<close>

fun dplus :: "double \<Rightarrow> real \<Rightarrow> double" where
  "dplus (Finite a) b = dround (a + b)"
| "dplus PInf b = PInf"
| "dplus NInf b = NInf"
| "dplus NaN b = NaN"

fun dminus :: "double \<Rightarrow> double \<Rightarrow> double" where
  "dminus (Finite a) (Finite b) = dround (a - b)"
| "dminus (Finite a) PInf = NInf"
| "dminus (Finite a) NInf = PInf"
| "dminus PInf (Finite b) = PInf"
| "dminus PInf NInf = PInf"
| "dminus NInf (Finite b) = NInf"
| "dminus NInf PInf = NInf"
| "dminus PInf PInf = NaN"
| "dminus NInf NInf = NaN"
| "dminus NaN b = NaN"
| "dminus a NaN = NaN"

fun dless :: "double \<Rightarrow> double \<Rightarrow> bool" where
  "dless (Finite a) (Finite b) = (a < b)"
| "dless (Finite a) PInf = True"
| "dless NInf (Finite b) = True"
| "dless NInf PInf = True"
| "dless a b = False"

definition dmin :: "double \<Rightarrow> double \<Rightarrow> double" where
  "dmin a b = (if a = NaN \<or> b = NaN then NaN else if dless b a then b else a)"

fun math_round :: "double \<Rightarrow> double" where
  "math_round (Finite v) = Finite (real_of_int (js_round v))"
| "math_round a = a"

section \<open>The tile batch normaliser\<close>

text \<open>
  What the generator takes from outside the repository: the builtins \<open>parseInt\<close> and
  \<open>parseFloat\<close> (\<open>None\<close> where the result is \<open>NaN\<close> or infinite, which is all the
  code asks of it through \<open>Number.isFinite\<close>), the stream of 32-bit integers that
  \<open>seedrandom\<close> produces for a seed, and the PNG encoder \<open>PNG.sync.write\<close>.
\<close>

record Externals =
  ext_parseInt :: "jsstring \<Rightarrow> int option"
  ext_parseFloat :: "jsstring \<Rightarrow> real option"
  ext_seedrandom :: "int \<Rightarrow> nat \<Rightarrow> 32 word"
  ext_pngWrite :: "int \<Rightarrow> int \<Rightarrow> 8 word list \<Rightarrow> 8 word list"

datatype error =
    InvalidTileDimensions jsstring
  | TileDimensionsNotPositive jsstring
  | InvalidTileCount jsstring
  | NoValidTileDefinitions
  | NoTilesAfterCap
  | InvalidArrayLength

definition isWhiteSpace :: "16 word \<Rightarrow> bool" where
  "isWhiteSpace c =
     (c \<in> {9, 10, 11, 12, 13, 32, 160, 5760, 8232, 8233, 8239, 8287, 12288, 65279}
      \<or> (8192 \<le> c \<and> c \<le> 8202))"

definition js_trim :: "jsstring \<Rightarrow> jsstring" where
  "js_trim s = rev (dropWhile isWhiteSpace (rev (dropWhile isWhiteSpace s)))"

fun js_split :: "16 word \<Rightarrow> jsstring \<Rightarrow> jsstring list" where
  "js_split sep [] = [[]]"
| "js_split sep (c # cs) =
     (if c = sep then [] # js_split sep cs
      else (case js_split sep cs of
              [] \<Rightarrow> [[c]]
            | piece # pieces \<Rightarrow> (c # piece) # pieces))"

definition mkSpec :: "int \<Rightarrow> int \<Rightarrow> real \<Rightarrow> TileSpec" where
  "mkSpec a b c = \<lparr>spec_w = a, spec_h = b, spec_count = c\<rparr>"

text \<open>
  One entry of the tile list, already trimmed and not empty: an error, \<open>None\<close> where
  the source continues with the next entry (a count that is not positive), or the entry.
  \<open>42\<close> is the asterisk and \<open>120\<close> the letter x.
\<close>

definition parsePart :: "Externals \<Rightarrow> jsstring \<Rightarrow> error + TileSpec option" where
  "parsePart ext part =
     (let pieces = js_split 42 part;
          dimStr = hd pieces;
          countStr = (if length pieces \<ge> 2 then pieces ! 1 else []);
          dims = js_split 120 dimStr
      in if length dims \<noteq> 2 then Inl (InvalidTileDimensions part)
         else
           case (ext_parseInt ext (js_trim (dims ! 0)), ext_parseInt ext (js_trim (dims ! 1))) of
             (Some w, Some h) \<Rightarrow>
               if w \<le> 0 \<or> h \<le> 0 then Inl (TileDimensionsNotPositive part)
               else if countStr \<noteq> []
               then (case ext_parseFloat ext (js_trim countStr) of
                       None \<Rightarrow> Inl (InvalidTileCount part)
                     | Some countVal \<Rightarrow>
                         if countVal \<le> 0 then Inr None else Inr (Some (mkSpec w h countVal)))
               else Inr (Some (mkSpec w h 1))
           | _ \<Rightarrow> Inl (TileDimensionsNotPositive part))"

fun parseParts :: "Externals \<Rightarrow> jsstring list \<Rightarrow> error + TileSpec list" where
  "parseParts ext [] = Inr []"
| "parseParts ext (partRaw # rest) =
     (if js_trim partRaw = [] then parseParts ext rest
      else (case parsePart ext (js_trim partRaw) of
              Inl e \<Rightarrow> Inl e
            | Inr None \<Rightarrow> parseParts ext rest
            | Inr (Some sp) \<Rightarrow>
                (case parseParts ext rest of
                   Inl e \<Rightarrow> Inl e
                 | Inr sps \<Rightarrow> Inr (sp # sps))))"

definition parseTileList :: "Externals \<Rightarrow> jsstring \<Rightarrow> error + TileSpec list" where
  "parseTileList ext input =
     (let trimmed = js_trim input
      in if trimmed = [] then Inr [mkSpec 2 2 400, mkSpec 2 1 300, mkSpec 1 1 100]
         else (case parseParts ext (js_split 44 trimmed) of
                 Inl e \<Rightarrow> Inl e
               | Inr result \<Rightarrow> if result = [] then Inl NoValidTileDefinitions else Inr result))"

text \<open>
  The legacy counts and the multiplier: \<open>found.count += entry.n\<close> and
  \<open>spec.count *= ka\<close> are operations on doubles. A count is a finite number here; a
  run in which one of these two operations overflows to Infinity is not followed.
\<close>

fun addLegacy :: "int \<Rightarrow> int \<Rightarrow> real \<Rightarrow> TileSpec list \<Rightarrow> TileSpec list" where
  "addLegacy a b n [] = [mkSpec a b n]"
| "addLegacy a b n (s # ss) =
     (if spec_w s = a \<and> spec_h s = b then s\<lparr>spec_count := nearest (spec_count s + n)\<rparr> # ss
      else s # addLegacy a b n ss)"

definition applyLegacyEntry :: "int \<Rightarrow> int \<Rightarrow> real \<Rightarrow> TileSpec list \<Rightarrow> TileSpec list" where
  "applyLegacyEntry a b n specs = (if n \<le> 0 then specs else addLegacy a b n specs)"

definition applyLegacyTiles :: "TileSpec list \<Rightarrow> real \<Rightarrow> real \<Rightarrow> real \<Rightarrow> TileSpec list" where
  "applyLegacyTiles specs n22 n21 n11 =
     applyLegacyEntry 1 1 n11 (applyLegacyEntry 2 1 n21 (applyLegacyEntry 2 2 n22 specs))"

definition activateMultiplier :: "TileSpec list \<Rightarrow> real \<Rightarrow> TileSpec list" where
  "activateMultiplier specs ka =
     (if ka \<le> 0 then specs
      else if ka = 1 then specs
      else map (\<lambda>s. s\<lparr>spec_count := nearest (spec_count s * ka)\<rparr>) specs)"

subsection \<open>Cap and rounding\<close>

text \<open>
  \<open>finalizeTileBatches\<close>, with the values it computes on the way named: the sum of the
  counts, the scale, the adjusted counts, \<open>scaledTotals\<close>, the floors, the list
  \<open>fractions\<close> of pairs (index, fractional remainder), the sum of the floors and the
  target total. The counts and the cap are finite doubles; each arithmetic operation of
  the source is the rounded one of the previous section.
  \<^item> \<open>sumCounts\<close>, the sum of the floors and the \<open>reduce\<close> over \<open>scaledTotals\<close> are
    accumulated from 0 in list order and may overflow to Infinity.
  \<^item> The scale is \<open>capLimit / sumCounts\<close> only when \<open>sumCounts > capLimit > 0\<close>: a
    quotient below 1, or 0 when the sum is Infinity. An adjusted count is a count times
    a scale between 0 and 1, and a remainder lies between 0 and 1: none of these
    overflows, so they are rounded by \<open>nearest\<close>.
  \<^item> \<open>Math.floor\<close> of a finite double and \<open>Math.round\<close> are exact.
  \<^item> The two comparators are those given to \<open>Array.sort\<close>, which is stable. Only the
    sign of their result is used, and the difference of two doubles has the sign of the
    exact difference, which is what the comparators return here.
  \<^item> \<open>slice0 n\<close> is \<open>slice(0, n)\<close>: it keeps the first \<open>sliceEnd n len\<close> of \<open>len\<close>
    elements, truncating \<open>n\<close> towards zero, counting a negative \<open>n\<close> from the end of the
    array, keeping everything for Infinity and nothing for -Infinity and NaN.
\<close>

definition sumCounts :: "TileSpec list \<Rightarrow> double" where
  "sumCounts specs = foldl dplus (Finite 0) (map spec_count specs)"

definition scaleFor :: "TileSpec list \<Rightarrow> real \<Rightarrow> real" where
  "scaleFor specs capLimit =
     (if capLimit > 0 \<and> dless (Finite capLimit) (sumCounts specs)
      then (case sumCounts specs of Finite summed \<Rightarrow> nearest (capLimit / summed) | _ \<Rightarrow> 0)
      else 1)"

definition adjustedCounts :: "TileSpec list \<Rightarrow> real \<Rightarrow> real list" where
  "adjustedCounts specs capLimit =
     map (\<lambda>s. nearest (spec_count s * scaleFor specs capLimit)) specs"

definition scaledTotals :: "TileSpec list \<Rightarrow> real \<Rightarrow> real list" where
  "scaledTotals specs capLimit =
     map (\<lambda>adjusted. if adjusted \<le> 0 then 0 else adjusted) (adjustedCounts specs capLimit)"

definition baseFloors :: "TileSpec list \<Rightarrow> real \<Rightarrow> int list" where
  "baseFloors specs capLimit =
     map (\<lambda>adjusted. if adjusted \<le> 0 then 0 else \<lfloor>adjusted\<rfloor>) (adjustedCounts specs capLimit)"

definition fracOf :: "real \<Rightarrow> real" where
  "fracOf adjusted = nearest (adjusted - real_of_int \<lfloor>adjusted\<rfloor>)"

definition fractions :: "TileSpec list \<Rightarrow> real \<Rightarrow> (nat \<times> real) list" where
  "fractions specs capLimit =
     map (\<lambda>(i, adjusted). (i, fracOf adjusted))
       (filter (\<lambda>(i, adjusted). \<not> adjusted \<le> 0 \<and> fracOf adjusted > 0)
          (enumerate 0 (adjustedCounts specs capLimit)))"

definition totalFloors :: "TileSpec list \<Rightarrow> real \<Rightarrow> double" where
  "totalFloors specs capLimit =
     foldl dplus (Finite 0)
       (map (\<lambda>adjusted. real_of_int \<lfloor>adjusted\<rfloor>)
          (filter (\<lambda>adjusted. \<not> adjusted \<le> 0) (adjustedCounts specs capLimit)))"

definition targetTotal :: "TileSpec list \<Rightarrow> real \<Rightarrow> double" where
  "targetTotal specs capLimit =
     (let rounded = math_round (foldl dplus (Finite 0) (scaledTotals specs capLimit))
      in if capLimit > 0
         then (if scaleFor specs capLimit < 1 then Finite capLimit
               else dmin (Finite capLimit) rounded)
         else rounded)"

definition cmpSmallestFirst :: "nat \<times> real \<Rightarrow> nat \<times> real \<Rightarrow> real" where
  "cmpSmallestFirst a b =
     (if snd a = snd b then real_of_int (int (fst a) - int (fst b)) else snd a - snd b)"

definition cmpLargestFirst :: "nat \<times> real \<Rightarrow> nat \<times> real \<Rightarrow> real" where
  "cmpLargestFirst a b =
     (if snd a = snd b then real_of_int (int (fst a) - int (fst b)) else snd b - snd a)"

fun insert_by :: "('a \<Rightarrow> 'a \<Rightarrow> real) \<Rightarrow> 'a \<Rightarrow> 'a list \<Rightarrow> 'a list" where
  "insert_by cmp a [] = [a]"
| "insert_by cmp a (b # bs) = (if cmp a b \<le> 0 then a # b # bs else b # insert_by cmp a bs)"

definition sort_by :: "('a \<Rightarrow> 'a \<Rightarrow> real) \<Rightarrow> 'a list \<Rightarrow> 'a list" where
  "sort_by cmp as = foldr (insert_by cmp) as []"

fun sliceEnd :: "double \<Rightarrow> nat \<Rightarrow> nat" where
  "sliceEnd (Finite n) len =
     (let k = (if n \<ge> 0 then \<lfloor>n\<rfloor> else \<lceil>n\<rceil>)
      in if k < 0 then nat (int len + k) else min (nat k) len)"
| "sliceEnd PInf len = len"
| "sliceEnd NInf len = 0"
| "sliceEnd NaN len = 0"

definition slice0 :: "double \<Rightarrow> 'a list \<Rightarrow> 'a list" where
  "slice0 n as = take (sliceEnd n (length as)) as"

definition removeUnit :: "nat \<times> real \<Rightarrow> int list \<Rightarrow> int list" where
  "removeUnit fraction floors =
     (if floors ! fst fraction > 0 then floors[fst fraction := floors ! fst fraction - 1]
      else floors)"

definition addUnit :: "nat \<times> real \<Rightarrow> int list \<Rightarrow> int list" where
  "addUnit fraction floors = floors[fst fraction := floors ! fst fraction + 1]"

definition finalFloors :: "TileSpec list \<Rightarrow> real \<Rightarrow> int list" where
  "finalFloors specs capLimit =
     (let floors = baseFloors specs capLimit;
          floorSum = totalFloors specs capLimit;
          target = targetTotal specs capLimit;
          (floors1, floorSum1) =
            (if dless target floorSum
             then (fold removeUnit
                     (slice0 (dminus floorSum target)
                        (sort_by cmpSmallestFirst (fractions specs capLimit)))
                     floors, target)
             else (floors, floorSum))
      in if dless floorSum1 target
         then fold addUnit
                (slice0 (dminus target floorSum1)
                   (sort_by cmpLargestFirst (fractions specs capLimit)))
                floors1
         else floors1)"

definition mkBatch :: "TileSpec \<Rightarrow> int \<Rightarrow> TileBatch" where
  "mkBatch s c = \<lparr>batch_w = spec_w s, batch_h = spec_h s, batch_count = c\<rparr>"

definition finalizeTileBatches :: "TileSpec list \<Rightarrow> real \<Rightarrow> TileBatch list" where
  "finalizeTileBatches specs capLimit =
     (if sumCounts specs = Finite 0 then []
      else map (\<lambda>(s, c). mkBatch s c)
             (filter (\<lambda>(s, c). \<not> c \<le> 0) (zip specs (finalFloors specs capLimit))))"

definition finalizeSpecs :: "Externals \<Rightarrow> GenerationParams \<Rightarrow> error + TileBatch list" where
  "finalizeSpecs ext params =
     (case parseTileList ext (p_tileString params) of
        Inl e \<Rightarrow> Inl e
      | Inr specs \<Rightarrow>
          Inr (finalizeTileBatches
                 (activateMultiplier
                    (applyLegacyTiles specs (p_n22 params) (p_n21 params) (p_n11 params))
                    (p_ka params))
                 (p_cap params)))"

section \<open>Coverage accumulation\<close>

text \<open>
  The coverage grid is a \<open>Uint16Array\<close>: a list of 16-bit words, row by row. A write
  to an index outside a typed array does nothing, and \<open>+= 1\<close> wraps at \<open>2 ^ 16\<close>.
\<close>

definition bumpCell :: "16 word list \<Rightarrow> int \<Rightarrow> 16 word list" where
  "bumpCell coverage idx =
     (if 0 \<le> idx \<and> idx < int (length coverage)
      then coverage[nat idx := coverage ! nat idx + 1]
      else coverage)"

definition rasterPlain :: "int \<Rightarrow> int \<Rightarrow> int \<Rightarrow> int \<Rightarrow> int \<Rightarrow> 16 word list \<Rightarrow> 16 word list" where
  "rasterPlain width x y w h coverage =
     fold (\<lambda>yy cov. fold (\<lambda>xx cov1. bumpCell cov1 (yy * width + xx)) [x..x + w - 1] cov)
       [y..y + h - 1] coverage"

definition polishCell :: "int \<Rightarrow> int \<Rightarrow> int \<Rightarrow> int \<Rightarrow> int \<Rightarrow> int \<Rightarrow> int \<Rightarrow> 16 word list \<Rightarrow> 16 word list" where
  "polishCell width x y w h yy xx coverage =
     (let innerRight = x + w;
          innerBottom = y + h;
          insideY = (yy \<ge> y \<and> yy < innerBottom);
          insideX = (xx \<ge> x \<and> xx < innerRight);
          idx = yy * width + xx
      in if insideX \<and> insideY then bumpCell coverage idx
         else
           let nearestX = (if xx < x then x else if xx \<ge> innerRight then innerRight - 1 else xx);
               nearestY = (if yy < y then y else if yy \<ge> innerBottom then innerBottom - 1 else yy);
               dx = xx - nearestX;
               dy = yy - nearestY
           in if dx * dx + dy * dy \<le> 1 then bumpCell coverage idx else coverage)"

definition rasterPolish :: "int \<Rightarrow> int \<Rightarrow> int \<Rightarrow> int \<Rightarrow> int \<Rightarrow> int \<Rightarrow> 16 word list \<Rightarrow> 16 word list" where
  "rasterPolish width height x y w h coverage =
     (let startY = max 0 (y - 1);
          endY = min height (y + h + 1);
          startX = max 0 (x - 1);
          endX = min width (x + w + 1)
      in fold (\<lambda>yy cov. fold (\<lambda>xx cov1. polishCell width x y w h yy xx cov1) [startX..endX - 1] cov)
           [startY..endY - 1] coverage)"

text \<open>
  One pass of the inner loop of \<open>placeTiles\<close>: one unit of a batch. The state is the
  generator (its running centroid), the coverage grid and the random number generator.
\<close>

definition placeUnit :: "GenerationParams \<Rightarrow> TileBatch \<Rightarrow> Generator \<times> 16 word list \<times> RNG \<Rightarrow> Generator \<times> 16 word list \<times> RNG" where
  "placeUnit params batch st =
     (let (g, coverage, rng) = st;
          (swap, rng1) =
            (if p_rotate params \<and> batch_w batch \<noteq> batch_h batch
             then (let (r, rng0) = intn 2 rng in (r = 0, rng0))
             else (False, rng));
          w = (if swap then batch_h batch else batch_w batch);
          h = (if swap then batch_w batch else batch_h batch)
      in if w \<le> 0 \<or> h \<le> 0 \<or> w > p_width params \<or> h > p_height params
         then (g, coverage, rng1)
         else
           let (p, rng2) = positionForTile g w h rng1;
               g1 = recordPlacement g (pt_x p) (pt_y p) w h
           in if \<not> p_polish params
              then (g1, rasterPlain (p_width params) (pt_x p) (pt_y p) w h coverage, rng2)
              else (g1, rasterPolish (p_width params) (p_height params) (pt_x p) (pt_y p) w h
                          coverage, rng2))"

definition placeBatch :: "GenerationParams \<Rightarrow> TileBatch \<Rightarrow> Generator \<times> 16 word list \<times> RNG \<Rightarrow> Generator \<times> 16 word list \<times> RNG" where
  "placeBatch params batch st = (placeUnit params batch ^^ nat (batch_count batch)) st"

definition placeTiles :: "Generator \<Rightarrow> GenerationParams \<Rightarrow> TileBatch list \<Rightarrow> 16 word list \<Rightarrow> RNG \<Rightarrow> int \<times> Generator \<times> 16 word list \<times> RNG" where
  "placeTiles generator params batches coverage rng =
     (sum_list (map batch_count batches),
      fold (placeBatch params) batches (generator, coverage, rng))"

section \<open>Tone mapping\<close>

definition mkColor :: "int \<Rightarrow> int \<Rightarrow> int \<Rightarrow> int \<Rightarrow> Color" where
  "mkColor r g b a = \<lparr>col_r = r, col_g = g, col_b = b, col_a = a\<rparr>"

definition green :: Color where
  "green = mkColor 34 139 34 255"

definition brown :: Color where
  "brown = mkColor 139 69 19 255"

definition water :: "GenerationParams \<Rightarrow> Color" where
  "water params =
     mkColor 22 75 135 (clampInt (if p_bgAlpha params = 0 then 255 else p_bgAlpha params) 0 255)"

definition clampChannel :: "real \<Rightarrow> int" where
  "clampChannel v = (if v < 0 then 0 else if v > 255 then 255 else js_round v)"

definition blendColor :: "Color \<Rightarrow> Color \<Rightarrow> real \<Rightarrow> Color" where
  "blendColor a b t =
     (let alpha0 = (1 - t) * real_of_int (col_a a) + t * real_of_int (col_a b);
          alpha = (if alpha0 = 0 then 1 else alpha0)
      in mkColor (clampChannel ((1 - t) * real_of_int (col_r a) + t * real_of_int (col_r b)))
                 (clampChannel ((1 - t) * real_of_int (col_g a) + t * real_of_int (col_g b)))
                 (clampChannel ((1 - t) * real_of_int (col_b a) + t * real_of_int (col_b b)))
                 (clampChannel alpha))"

definition coverageToColor :: "int \<Rightarrow> real \<Rightarrow> bool \<Rightarrow> Color \<Rightarrow> Color \<Rightarrow> Color" where
  "coverageToColor coverage brownCap logTone grn brn =
     (if coverage \<le> 0 then mkColor 0 0 0 0
      else if coverage = 1 then grn
      else
        let cap = max 1 brownCap;
            ratio0 = (if logTone then ln (real_of_int coverage) / ln (cap + 1)
                      else (real_of_int coverage - 1) / cap);
            ratio = clampFloat ratio0 0 1
        in blendColor grn brn ratio)"

text \<open>The body of the pixel loop of \<open>generateMap\<close>, for the count \<open>cov\<close> of one cell.\<close>

definition pixelColor :: "GenerationParams \<Rightarrow> 16 word \<Rightarrow> Color" where
  "pixelColor params cov =
     (if cov = 0 then water params
      else coverageToColor (uint cov) (p_brownCap params) (p_logTone params) green brown)"

definition colorBytes :: "Color \<Rightarrow> 8 word list" where
  "colorBytes c = [word_of_int (col_r c), word_of_int (col_g c), word_of_int (col_b c),
                   word_of_int (col_a c)]"

definition renderPixels :: "GenerationParams \<Rightarrow> 16 word list \<Rightarrow> 8 word list" where
  "renderPixels params coverage =
     concat (map (\<lambda>y. concat (map (\<lambda>x. colorBytes (pixelColor params
                                          (coverage ! nat (y * p_width params + x))))
                               [0..p_width params - 1]))
                 [0..p_height params - 1])"

section \<open>The generation run\<close>

record GenerationResult =
  res_data :: "8 word list"
  res_batches :: nat
  res_totalPlacements :: int
  res_seedValue :: int

definition newRNG :: "Externals \<Rightarrow> int \<Rightarrow> RNG" where
  "newRNG ext seed = \<lparr>rng_uniform = ext_seedrandom ext seed, rng_pos = 0, rng_spare = None\<rparr>"

text \<open>
  \<open>generateMap\<close>. The clock that \<open>seedFromString\<close> reads for an empty seed is the
  argument \<open>now\<close>. The result is the encoder's output for the pixel buffer, with the
  three reported numbers. \<open>new Uint16Array\<close> raises on a negative length.
\<close>

definition generateMap :: "Externals \<Rightarrow> int \<Rightarrow> GenerationParams \<Rightarrow> error + GenerationResult" where
  "generateMap ext now params =
     (case finalizeSpecs ext params of
        Inl e \<Rightarrow> Inl e
      | Inr specs \<Rightarrow>
          if specs = [] then Inl NoTilesAfterCap
          else
            let seedValue = seedFromString now (p_seed params);
                rng = newRNG ext seedValue;
                (generator, rng1) = newGenerator params rng
            in if p_width params * p_height params < 0 then Inl InvalidArrayLength
               else
                 let coverage0 = replicate (nat (p_width params * p_height params)) (0 :: 16 word);
                     (totalPlacements, generator1, coverage, rng2) =
                       placeTiles generator params specs coverage0 rng1
                 in Inr \<lparr>res_data = ext_pngWrite ext (p_width params) (p_height params)
                                       (renderPixels params coverage),
                         res_batches = length specs,
                         res_totalPlacements = totalPlacements,
                         res_seedValue = seedValue\<rparr>)"

section \<open>Concrete inputs\<close>

definition demo_rng :: RNG where
  "demo_rng = \<lparr>rng_uniform = (\<lambda>k. 0), rng_pos = 0, rng_spare = None\<rparr>"

definition demo_ext :: Externals where
  "demo_ext =
     \<lparr>ext_parseInt = (\<lambda>s. None), ext_parseFloat = (\<lambda>s. None),
      ext_seedrandom = (\<lambda>seed k. 0), ext_pngWrite = (\<lambda>width height pixels. pixels)\<rparr>"

definition demo_generator :: Generator where
  "demo_generator =
     \<lparr>g_width = 10, g_height = 8, g_mode = Center, g_rings = 3, g_ringStart = 1 / 10,
      g_ringEnd = 8 / 10, g_islands = 4, g_islandRFrac = 1 / 4, g_islandCenters = [],
      g_continentCenters = [], g_ringBoundaries = [], g_totalArea = 0, g_sumX = 0,
      g_sumY = 0\<rparr>"

definition demo_params :: GenerationParams where
  "demo_params =
     \<lparr>p_width = 10, p_height = 8, p_tileString = [], p_ka = 1, p_cap = 0, p_mode = Center,
      p_rings = 3, p_ringStart = 1 / 10, p_ringEnd = 8 / 10, p_seed = [116, 49],
      p_logTone = True, p_brownCap = 8, p_bgAlpha = 0, p_islands = 4, p_islandRFrac = 1 / 4,
      p_rotate = True, p_polish = False, p_n22 = 0, p_n21 = 0, p_n11 = 0\<rparr>"

text \<open>
  The adjustment of the ring bounds as the specification words it: when the end does not
  exceed the start, shrink the end by 0.1 if it is already at least 1, otherwise grow
  the start by 0.1.
\<close>

definition ringBounds_stated :: "real \<Rightarrow> real \<Rightarrow> real \<times> real" where
  "ringBounds_stated ringStart ringEnd =
     (let start = clampFloat ringStart 0 1;
          end0 = clampFloat ringEnd 0 1
      in if end0 \<le> start
         then (if end0 \<ge> 1 then (start, end0 - 1 / 10) else (start + 1 / 10, end0))
         else (start, end0))"



text \<open>
  The state of the loop of \<open>initRingBands\<close> before pass \<open>i\<close>: the table has its
  full length, \<open>prev\<close> lies in [0, 1], and the entries below \<open>i\<close> lie between 0 and
  \<open>prev\<close> and do not decrease.
\<close>

definition ringTableInv :: "nat \<Rightarrow> nat \<Rightarrow> real list \<times> real \<Rightarrow> bool" where
  "ringTableInv n i st =
     (length (fst st) = Suc n \<and> 0 \<le> snd st \<and> snd st \<le> 1
      \<and> (\<forall>j<i. 0 \<le> fst st ! j \<and> fst st ! j \<le> snd st)
      \<and> (\<forall>j k. j \<le> k \<and> k < i \<longrightarrow> fst st ! j \<le> fst st ! k))"




text \<open>
  A real number is a finite double when rounding leaves it unchanged and it is below the
  overflow threshold. Every double is an integer multiple of the smallest positive one,
  \<open>2^-1074\<close>.
\<close>

definition is_double :: "real \<Rightarrow> bool" where
  "is_double x = (nearest x = x \<and> \<bar>x\<bar> < 2 ^ 1024)"

definition on_grid :: "real \<Rightarrow> bool" where
  "on_grid x = (\<exists>j::int. x = real_of_int j * 2 powi (- 1074))"

text \<open>
  Inputs of the normaliser: the default tile list of \<open>parseTileList\<close>; the largest
  double below 120, which is \<open>120 - 2^-46\<close> and prints as 119.99999999999999; the
  double \<open>2^1023\<close>, which prints as 8.98846567431158e307; and the tile list
  \<open>1x1*2.6,1x1*3,1x1*4.8,1x1*2.1\<close>, whose counts are the doubles nearest to 2.6, 3,
  4.8 and 2.1.
\<close>

definition default_specs :: "TileSpec list" where
  "default_specs = [mkSpec 2 2 400, mkSpec 2 1 300, mkSpec 1 1 100]"

definition below_120 :: real where
  "below_120 = 8444249301319679 / 70368744177664"

definition huge_count :: real where
  "huge_count = 2 ^ 1023"

definition fractional_specs :: "TileSpec list" where
  "fractional_specs =
     [mkSpec 1 1 (5854679515581645 / 2251799813685248), mkSpec 1 1 3,
      mkSpec 1 1 (5404319552844595 / 1125899906842624),
      mkSpec 1 1 (4728779608739021 / 2251799813685248)]"

section \<open>Determinism\<close>

text \<open>
  C1. With a seed string that is not empty, the result of \<open>generateMap\<close> (the encoded
  image, the number of batches, the number of placements and the seed value) does not
  depend on the clock, the only input of a run besides its parameters: two runs with the
  same parameters give the same result, whatever the time of each.
\<close>

theorem generateMap_deterministic:
  "p_seed params \<noteq> [] \<Longrightarrow> generateMap ext now1 params = generateMap ext now2 params"
proof -
  assume "p_seed params \<noteq> []"
  then have eq: "seedFromString now1 (p_seed params) = seedFromString now2 (p_seed params)"
    by (simp add: seedFromString_def)
  show ?thesis
    unfolding generateMap_def eq by (rule refl)
qed

theorem generateMap_deterministic_witness:
  "p_seed demo_params \<noteq> [] \<and>
   generateMap demo_ext 0 demo_params = generateMap demo_ext 1 demo_params"
  using generateMap_deterministic [of demo_params demo_ext 0 1]
  by (simp add: demo_params_def)

section \<open>Ring bounds\<close>

text \<open>
  C6, as stated, fails: with both bounds at 1 the code lowers the start to 0.9 and leaves
  the end at 1, and with start 0.5 and end 0.3 it raises the end to 0.6 and leaves the
  start; the specification has the two bounds the other way round.
\<close>

theorem ringBounds_stated_counterexample:
  "ringBounds 1 1 \<noteq> ringBounds_stated 1 1 \<and>
   ringBounds (1 / 2) (3 / 10) \<noteq> ringBounds_stated (1 / 2) (3 / 10)"
  by (simp add: ringBounds_def ringBounds_stated_def clampFloat_def Let_def)

text \<open>
  C6, amended. When the clamped end does not exceed the clamped start, \<open>initRingBands\<close>
  lowers the start to 0.9 if the end is already 1 (the end stays), and otherwise raises
  the end to the start plus 0.1, at most 1 (the start stays). The end then exceeds the
  start unless the start is 1 and the end was below 1.
\<close>

theorem initRingBands_adjust:
  assumes "clampFloat (g_ringEnd g) 0 1 \<le> clampFloat (g_ringStart g) 0 1"
  shows "(g_ringStart (initRingBands g), g_ringEnd (initRingBands g)) =
           (if clampFloat (g_ringEnd g) 0 1 \<ge> 1 then (9 / 10, 1)
            else (clampFloat (g_ringStart g) 0 1, min 1 (clampFloat (g_ringStart g) 0 1 + 1 / 10)))
         \<and> (g_ringStart (initRingBands g) < g_ringEnd (initRingBands g) \<longleftrightarrow>
              \<not> (clampFloat (g_ringStart g) 0 1 = 1 \<and> clampFloat (g_ringEnd g) 0 1 < 1))"
  using assms
  by (auto simp: initRingBands_def ringBounds_def clampFloat_def Let_def split: if_splits)

theorem initRingBands_adjust_witness:
  "clampFloat (g_ringEnd (demo_generator\<lparr>g_ringStart := 1 / 2, g_ringEnd := 3 / 10\<rparr>)) 0 1
     \<le> clampFloat (g_ringStart (demo_generator\<lparr>g_ringStart := 1 / 2, g_ringEnd := 3 / 10\<rparr>)) 0 1
   \<and> g_ringStart (initRingBands (demo_generator\<lparr>g_ringStart := 1 / 2, g_ringEnd := 3 / 10\<rparr>)) = 1 / 2
   \<and> g_ringEnd (initRingBands (demo_generator\<lparr>g_ringStart := 1 / 2, g_ringEnd := 3 / 10\<rparr>)) = 6 / 10"
  using initRingBands_adjust [of "demo_generator\<lparr>g_ringStart := 1 / 2, g_ringEnd := 3 / 10\<rparr>"]
  by (simp add: clampFloat_def)

section \<open>Placement\<close>

text \<open>
  C9. When the tile is at least as wide as the canvas or at least as high,
  \<open>positionForTile\<close> returns the point (0, 0) and leaves the random number generator as
  it was: no draw is made. The test is \<open>\<ge>\<close>, so this is also the answer for a tile
  exactly as wide (or as high) as the canvas, which does fit.
\<close>

theorem positionForTile_degenerate:
  "tw \<ge> g_width g \<or> th \<ge> g_height g \<Longrightarrow>
   positionForTile g tw th rng = (\<lparr>pt_x = 0, pt_y = 0\<rparr>, rng)"
  by (simp add: positionForTile_def mkPoint_def)

theorem positionForTile_degenerate_witness:
  "((10::int) \<ge> g_width demo_generator \<or> (3::int) \<ge> g_height demo_generator) \<and>
   positionForTile demo_generator 10 3 demo_rng = (\<lparr>pt_x = 0, pt_y = 0\<rparr>, demo_rng)"
  using positionForTile_degenerate [of demo_generator 10 3 demo_rng]
  by (simp add: demo_generator_def)

section \<open>Seed derivation: properties\<close>

lemma hash_step_word: "word_of_int (hash_step h c) = fnv1a64_step (word_of_int h) c"
  unfolding hash_step_def fnv1a64_step_def fnv_prime_def
  by (simp add: of_int_xor_eq)

lemma hash_foldl_word:
  "word_of_int (foldl hash_step h seed) = foldl fnv1a64_step (word_of_int h) seed"
  by (induction seed arbitrary: h) (simp_all add: hash_step_word)

lemma hash_loop_word: "word_of_int (hash_loop seed) = fnv1a64 seed"
  by (simp add: hash_loop_def fnv1a64_def hash_foldl_word fnv_offset_def)

lemma seed_mask_eq: "seed_mask = mask 63"
  by (simp add: seed_mask_def mask_eq_exp_minus_1)

lemma word_mask63: "(9223372036854775807 :: 64 word) = mask 63"
  by (simp add: mask_eq_exp_minus_1)

lemma and_mask_word:
  "k AND seed_mask = uint ((word_of_int k :: 64 word) AND 9223372036854775807)"
  unfolding seed_mask_eq word_mask63
  by (simp add: take_bit_eq_mask [symmetric] unsigned_take_bit_eq uint_word_of_int_eq)

text \<open>
  The unbounded \<open>BigInt\<close> arithmetic of the code and the 64-bit hash agree on the low 63
  bits.
\<close>

lemma hash_loop_masked: "hash_loop seed AND seed_mask = masked_hash seed"
  by (simp add: and_mask_word hash_loop_word masked_hash_def)

lemma masked_hash_range: "0 \<le> masked_hash seed \<and> masked_hash seed < 2 ^ 63"
  unfolding masked_hash_def word_mask63
  using and_mask_lt_2p [of "fnv1a64 seed" 63] by simp

lemma round53_nonneg: "0 \<le> n \<Longrightarrow> 0 \<le> round53 n"
  by (auto simp: round53_def Let_def pos_imp_zdiv_nonneg_iff)

lemma round53_exact: "n < 2 ^ 53 \<Longrightarrow> round53 n = n"
  by (simp add: round53_def)

lemma round53_error:
  assumes "0 \<le> n" "n < 2 ^ 63"
  shows "\<bar>round53 n - n\<bar> \<le> 512"
proof (cases "n < 2 ^ 53")
  case True
  then show ?thesis by (simp add: round53_def)
next
  case False
  define sh where "sh = nat (bitlen n - 53)"
  define q where "q = n div 2 ^ sh"
  define r where "r = n mod 2 ^ sh"
  have "bitlen n \<le> 63"
    using assms bitlen_le_iff_power [of n 63] by simp
  moreover have "\<not> bitlen n \<le> 53"
    using False bitlen_le_iff_power [of n 53] by simp
  ultimately have sh: "1 \<le> sh" "sh \<le> 10"
    by (simp_all add: sh_def)
  have n: "n = q * 2 ^ sh + r"
    using div_mult_mod_eq [of n "2 ^ sh"] by (simp add: q_def r_def)
  have r: "0 \<le> r" "r < 2 ^ sh"
    by (simp_all add: r_def)
  have pw: "(2::int) ^ sh = 2 * 2 ^ (sh - 1)"
    using sh by (cases sh) simp_all
  have "(2::int) ^ (sh - 1) \<le> 2 ^ 9"
    using sh by (intro power_increasing) simp_all
  then have half: "(2::int) ^ (sh - 1) \<le> 512"
    by simp
  have "round53 n =
          (if r > 2 ^ (sh - 1) \<or> (r = 2 ^ (sh - 1) \<and> odd q) then (q + 1) * 2 ^ sh
           else q * 2 ^ sh)"
    using False by (simp add: round53_def Let_def sh_def q_def r_def)
  then show ?thesis
    using n r pw half by (auto simp: algebra_simps split: if_splits)
qed

text \<open>
  C7, as stated, fails: for the seed \<open>"a"\<close> (code unit 97) the masked hash is
  4953267810257967366 and \<open>seedFromString\<close> returns 4953267810257967104, the nearest
  double.
\<close>

theorem seedFromString_counterexample: "seedFromString 0 [97] \<noteq> masked_hash [97]"
proof -
  have "seedFromString 0 [97] = 4953267810257967104"
    by code_simp
  moreover have "masked_hash [97] = 4953267810257967366"
    by code_simp
  ultimately show ?thesis
    by simp
qed

text \<open>
  C7, amended. For a seed that is not empty, \<open>seedFromString\<close> returns the double
  nearest to the 64-bit FNV-1a hash (offset 1469598103934665603, prime 1099511628211,
  one XOR and one multiplication for each UTF-16 code unit) masked to its low 63 bits.
  The result is not negative, is within 512 of the masked hash, and is the masked hash
  itself when that is below \<open>2 ^ 53\<close>.
\<close>

theorem seedFromString_value:
  "seed \<noteq> [] \<Longrightarrow>
   seedFromString now seed = Number_of_BigInt (masked_hash seed)
   \<and> 0 \<le> seedFromString now seed
   \<and> \<bar>seedFromString now seed - masked_hash seed\<bar> \<le> 512
   \<and> (masked_hash seed < 2 ^ 53 \<longrightarrow> seedFromString now seed = masked_hash seed)"
proof -
  assume ne: "seed \<noteq> []"
  have rng: "0 \<le> masked_hash seed" "masked_hash seed < 2 ^ 63"
    using masked_hash_range [of seed] by simp_all
  have v: "seedFromString now seed = round53 (masked_hash seed)"
    using ne rng by (simp add: seedFromString_def hash_loop_masked Number_of_BigInt_def)
  have n: "Number_of_BigInt (masked_hash seed) = round53 (masked_hash seed)"
    using rng by (simp add: Number_of_BigInt_def)
  show ?thesis
    using v n round53_nonneg [OF rng(1)] round53_error [OF rng] round53_exact [of "masked_hash seed"]
    by simp
qed

theorem seedFromString_value_witness:
  "[84, 70, 64] \<noteq> ([] :: jsstring) \<and> masked_hash [84, 70, 64] < 2 ^ 53
   \<and> seedFromString 0 [84, 70, 64] = 23436931032395"
proof -
  have m: "masked_hash [84, 70, 64] = 23436931032395"
    by code_simp
  show ?thesis
    using seedFromString_value [of "[84, 70, 64]" 0] m by simp
qed

section \<open>Tone mapping: properties\<close>

lemma clampFloat_ge_one: "1 \<le> v \<Longrightarrow> clampFloat v 0 1 = 1"
  by (simp add: clampFloat_def)

lemma blend_full: "blendColor green brown 1 = brown"
  by (simp add: blendColor_def green_def brown_def mkColor_def clampChannel_def js_round_def)

lemma log_ratio_ge_one:
  assumes "1 \<le> (cap::real)" "cap + 1 \<le> c"
  shows "1 \<le> ln c / ln (cap + 1)"
proof -
  have pos: "0 < ln (cap + 1)"
    using assms by simp
  have "ln (cap + 1) \<le> ln c"
    using assms by simp
  then show ?thesis
    using pos by (simp add: le_divide_eq)
qed

lemma coverageToColor_dense:
  assumes "max 1 brownCap + 1 \<le> real_of_int c"
  shows "coverageToColor c brownCap logTone green brown = brown"
proof -
  let ?cap = "max 1 brownCap"
  have c2: "2 \<le> real_of_int c"
    using assms by linarith
  then have c: "\<not> c \<le> 0" "c \<noteq> 1"
    by auto
  have "1 \<le> ln (real_of_int c) / ln (?cap + 1)"
    by (rule log_ratio_ge_one) (use assms in simp_all)
  moreover have "1 \<le> (real_of_int c - 1) / ?cap"
  proof -
    have "0 < ?cap" "?cap \<le> real_of_int c - 1"
      using assms by linarith+
    then show ?thesis
      by (simp only: le_divide_eq_1_pos)
  qed
  ultimately have "clampFloat (if logTone then ln (real_of_int c) / ln (?cap + 1)
                      else (real_of_int c - 1) / ?cap) 0 1 = 1"
    by (simp add: clampFloat_ge_one)
  then show ?thesis
    using c by (simp add: coverageToColor_def Let_def blend_full)
qed

text \<open>
  C8, as stated, fails: with the background alpha parameter 0 the pixel of an uncovered
  cell has alpha 255, not 0.
\<close>

theorem water_alpha_counterexample:
  "p_bgAlpha demo_params = 0 \<and> col_a (pixelColor demo_params 0) = 255"
  by (simp add: demo_params_def pixelColor_def water_def mkColor_def clampInt_def)

text \<open>
  C8, amended. A cell with coverage 0 gets the water colour (22, 75, 135) with alpha
  255 when the background alpha parameter is 0 and with the parameter clamped to
  0..255 otherwise; a cell with coverage 1 gets exactly the land colour; a cell with
  coverage at least \<open>max 1 brownCap + 1\<close> gets exactly the dense colour, with the
  logarithmic and with the linear tone.
\<close>

theorem tone_mapping_boundaries:
  "pixelColor params 0 =
     \<lparr>col_r = 22, col_g = 75, col_b = 135,
      col_a = (if p_bgAlpha params = 0 then 255 else clampInt (p_bgAlpha params) 0 255)\<rparr>
   \<and> pixelColor params 1 = green
   \<and> (max 1 (p_brownCap params) + 1 \<le> real_of_int (uint cov) \<longrightarrow> pixelColor params cov = brown)"
proof -
  have w: "pixelColor params 0 =
     \<lparr>col_r = 22, col_g = 75, col_b = 135,
      col_a = (if p_bgAlpha params = 0 then 255 else clampInt (p_bgAlpha params) 0 255)\<rparr>"
    by (simp add: pixelColor_def water_def mkColor_def clampInt_def)
  have l: "pixelColor params 1 = green"
    by (simp add: pixelColor_def coverageToColor_def)
  have d: "pixelColor params cov = brown"
    if "max 1 (p_brownCap params) + 1 \<le> real_of_int (uint cov)"
  proof -
    have "2 \<le> real_of_int (uint cov)"
      using that by linarith
    then have "cov \<noteq> 0"
      by auto
    then show ?thesis
      using that by (simp add: pixelColor_def coverageToColor_dense)
  qed
  show ?thesis
    using w l d by blast
qed

theorem tone_mapping_boundaries_witness:
  "max 1 (p_brownCap demo_params) + 1 \<le> real_of_int (uint (9 :: 16 word))
   \<and> pixelColor demo_params 9 = brown
   \<and> pixelColor (demo_params\<lparr>p_logTone := False\<rparr>) 9 = brown"
  using tone_mapping_boundaries [of demo_params 9]
        tone_mapping_boundaries [of "demo_params\<lparr>p_logTone := False\<rparr>" 9]
  by (simp add: demo_params_def)

section \<open>The ring boundary table\<close>

lemma clampFloat_range: "lo \<le> hi \<Longrightarrow> lo \<le> clampFloat v lo hi \<and> clampFloat v lo hi \<le> hi"
  by (simp add: clampFloat_def)

lemma ringBounds_range:
  "0 \<le> fst (ringBounds a b) \<and> fst (ringBounds a b) \<le> 1 \<and>
   0 \<le> snd (ringBounds a b) \<and> snd (ringBounds a b) \<le> 1"
  by (simp add: ringBounds_def Let_def clampFloat_def)

lemma ringStep_inv:
  assumes inv: "ringTableInv n i st" and i: "i \<le> n"
  shows "ringTableInv n (Suc i) (ringStep n start end1 step i st)"
proof -
  obtain bounds prev where st: "st = (bounds, prev)"
    by (cases st)
  define val where "val = clampFloat (if i = 1 then start else if i = n then end1
                                       else start + (real i - 1) * step) prev 1"
  have len: "length bounds = Suc n" and prev: "0 \<le> prev" "prev \<le> 1"
    and old: "\<And>j. j < i \<Longrightarrow> 0 \<le> bounds ! j \<and> bounds ! j \<le> prev"
    and oldm: "\<And>j k. j \<le> k \<Longrightarrow> k < i \<Longrightarrow> bounds ! j \<le> bounds ! k"
    using inv unfolding ringTableInv_def st by simp_all
  have r: "ringStep n start end1 step i st = (bounds[i := val], val)"
    unfolding st by (simp add: ringStep_def val_def Let_def)
  have v: "prev \<le> val" "val \<le> 1"
    using prev clampFloat_range [of prev 1] by (simp_all add: val_def)
  have ilen: "i < length bounds"
    using len i by simp
  have nth: "bounds[i := val] ! j = (if j = i then val else bounds ! j)" for j
    using ilen by (simp add: nth_list_update)
  have a: "0 \<le> bounds[i := val] ! j \<and> bounds[i := val] ! j \<le> val" if "j < Suc i" for j
  proof (cases "j = i")
    case True
    then show ?thesis using v prev by (simp add: nth)
  next
    case False
    then have "j < i" using that by simp
    then show ?thesis using old [of j] v False by (simp add: nth)
  qed
  have b: "bounds[i := val] ! j \<le> bounds[i := val] ! k" if "j \<le> k" "k < Suc i" for j k
  proof (cases "k = i")
    case True
    then show ?thesis
      using a [of j] that by (simp add: nth)
  next
    case False
    then have "k < i" "j \<noteq> i" using that by simp_all
    then show ?thesis
      using that oldm [of j k] False by (simp add: nth)
  qed
  show ?thesis
    unfolding r ringTableInv_def fst_conv snd_conv
    using len prev v a b by (simp del: nth_list_update)
qed

lemma ringLoop_inv:
  "m \<le> n \<Longrightarrow>
   ringTableInv n (Suc m) (fold (ringStep n start end1 step) [1..<Suc m] (replicate (Suc n) 0, 0))"
proof (induction m)
  case 0
  have "[1..<Suc 0] = []" by simp
  then show ?case
    by (simp add: ringTableInv_def)
next
  case (Suc m)
  have "[1..<Suc (Suc m)] = [1..<Suc m] @ [Suc m]"
    by (simp only: upt_Suc_append)
  then have unfold: "fold (ringStep n start end1 step) [1..<Suc (Suc m)] (replicate (Suc n) 0, 0)
      = ringStep n start end1 step (Suc m)
          (fold (ringStep n start end1 step) [1..<Suc m] (replicate (Suc n) 0, 0))"
    by (simp only: fold_append fold_simps o_apply)
  show ?case
    unfolding unfold
    by (rule ringStep_inv) (use Suc in simp_all)
qed


text \<open>
  C5. For every ring count and every pair of ring bounds, the boundary table that
  \<open>initRingBands\<close> builds does not decrease, holds only values in [0, 1], and has
  \<open>max 1 rings + 1\<close> entries; this covers the inputs with \<open>ringEnd \<le> ringStart\<close>,
  where the bounds are adjusted first.
\<close>

theorem initRingBands_table:
  "sorted (g_ringBoundaries (initRingBands g))
   \<and> list_all (\<lambda>v. 0 \<le> v \<and> v \<le> 1) (g_ringBoundaries (initRingBands g))
   \<and> length (g_ringBoundaries (initRingBands g)) = nat (max 1 (g_rings g)) + 1"
proof -
  define n where "n = nat (max 1 (g_rings g))"
  obtain start end0 where se: "ringBounds (g_ringStart g) (g_ringEnd g) = (start, end0)"
    by (cases "ringBounds (g_ringStart g) (g_ringEnd g)")
  have rng: "0 \<le> start" "start \<le> 1" "0 \<le> end0" "end0 \<le> 1"
    using ringBounds_range [of "g_ringStart g" "g_ringEnd g"] by (simp_all add: se)
  show ?thesis
  proof (cases "n = 1")
    case True
    have "g_ringBoundaries (initRingBands g) = [0, max start (min 1 end0)]"
      using True by (simp add: initRingBands_def se n_def [symmetric] Let_def)
    then show ?thesis
      using rng True by (simp add: n_def)
  next
    case False
    define spanv where "spanv = (if end0 - start \<le> 0 then 1 / 10 else end0 - start)"
    define end1 where "end1 = (if end0 - start \<le> 0 then clampFloat (start + spanv) start 1 else end0)"
    define step where "step = spanv / (real n - 1)"
    define st where "st = fold (ringStep n start end1 step) [1..<Suc n] (replicate (Suc n) 0, 0)"
    have tab: "g_ringBoundaries (initRingBands g) = fst st"
      using False
      by (simp add: initRingBands_def se n_def [symmetric] Let_def spanv_def end1_def step_def
            st_def del: upt_Suc replicate_Suc)
    have "ringTableInv n (Suc n) st"
      unfolding st_def by (rule ringLoop_inv) simp
    then have inv: "length (fst st) = Suc n" "snd st \<le> 1"
      "\<And>j. j < Suc n \<Longrightarrow> 0 \<le> fst st ! j \<and> fst st ! j \<le> snd st"
      "\<And>j k. j \<le> k \<Longrightarrow> k < Suc n \<Longrightarrow> fst st ! j \<le> fst st ! k"
      unfolding ringTableInv_def by simp_all
    have "sorted (fst st)"
      using inv(1,4) by (simp add: sorted_iff_nth_mono)
    moreover have "list_all (\<lambda>v. 0 \<le> v \<and> v \<le> 1) (fst st)"
      unfolding list_all_length using inv(1,2) inv(3) by fastforce
    ultimately show ?thesis
      using inv(1) tab by (simp add: n_def)
  qed
qed

section \<open>Placement bounds\<close>



lemma clampInt_range: "lo \<le> hi \<Longrightarrow> lo \<le> clampInt v lo hi \<and> clampInt v lo hi \<le> hi"
  by (simp add: clampInt_def)





























section \<open>Coverage counts wrap around\<close>

lemma bumpCell_length: "length (bumpCell cov idx) = length cov"
  by (simp add: bumpCell_def)

lemma bumpCell_nth:
  assumes "0 \<le> idx" "idx < int (length cov)" "k < length cov"
  shows "bumpCell cov idx ! k = cov ! k + (if int k = idx then 1 else 0)"
  using assms by (auto simp: bumpCell_def nth_list_update)

lemma bump_row:
  assumes "0 \<le> b + i" "b + j < int (length cov)"
  shows "length (fold (\<lambda>xx c. bumpCell c (b + xx)) [i..j] cov) = length cov
    \<and> (\<forall>k<length cov. fold (\<lambda>xx c. bumpCell c (b + xx)) [i..j] cov ! k
           = cov ! k + (if b + i \<le> int k \<and> int k \<le> b + j then 1 else 0))"
  using assms
proof (induction "nat (j + 1 - i)" arbitrary: i cov)
  case 0
  then have "[i..j] = []"
    by simp
  moreover have "\<not> (b + i \<le> int k \<and> int k \<le> b + j)" for k
    using 0 by auto
  ultimately show ?case
    by simp
next
  case (Suc m)
  then have ij: "i \<le> j"
    by auto
  then have u: "[i..j] = i # [i + 1..j]"
    by (rule upto_rec1)
  let ?cov = "bumpCell cov (b + i)"
  have len: "length ?cov = length cov"
    by (rule bumpCell_length)
  have ih: "length (fold (\<lambda>xx c. bumpCell c (b + xx)) [i + 1..j] ?cov) = length ?cov
    \<and> (\<forall>k<length ?cov. fold (\<lambda>xx c. bumpCell c (b + xx)) [i + 1..j] ?cov ! k
           = ?cov ! k + (if b + (i + 1) \<le> int k \<and> int k \<le> b + j then 1 else 0))"
    using Suc.hyps(2) Suc.prems by (intro Suc.hyps(1)) (simp_all add: len)
  have first: "?cov ! k = cov ! k + (if int k = b + i then 1 else 0)" if "k < length cov" for k
    using Suc.prems ij that by (intro bumpCell_nth) simp_all
  show ?case
    unfolding u fold_simps using ih first ij by (auto simp: len)
qed


lemma bump_rows:
  assumes "0 < W" "0 \<le> i" "(j + 1) * W \<le> int (length cov)"
  shows "length (fold (\<lambda>yy c. fold (\<lambda>xx c1. bumpCell c1 (yy * W + xx)) [0..W - 1] c) [i..j] cov)
           = length cov
    \<and> (\<forall>k<length cov.
          fold (\<lambda>yy c. fold (\<lambda>xx c1. bumpCell c1 (yy * W + xx)) [0..W - 1] c) [i..j] cov ! k
           = cov ! k + (if i * W \<le> int k \<and> int k < (j + 1) * W then 1 else 0))"
  using assms
proof (induction "nat (j + 1 - i)" arbitrary: i cov)
  case 0
  then have ji: "j + 1 \<le> i"
    by simp
  then have "[i..j] = []"
    by simp
  moreover have "\<not> (i * W \<le> int k \<and> int k < (j + 1) * W)" for k
  proof -
    have "(j + 1) * W \<le> i * W"
      using ji 0 by (intro mult_right_mono) simp_all
    then show ?thesis
      by linarith
  qed
  ultimately show ?case
    by auto
next
  case (Suc m)
  then have ij: "i \<le> j"
    by auto
  then have u: "[i..j] = i # [i + 1..j]"
    by (rule upto_rec1)
  let ?cov = "fold (\<lambda>xx c1. bumpCell c1 (i * W + xx)) [0..W - 1] cov"
  have le: "(i + 1) * W \<le> (j + 1) * W"
    using ij Suc.prems by (intro mult_right_mono) simp_all
  have e: "(i + 1) * W = i * W + W"
    by (simp add: algebra_simps)
  have iw: "0 \<le> i * W"
    using Suc.prems by simp
  have row: "length ?cov = length cov
    \<and> (\<forall>k<length cov. ?cov ! k
           = cov ! k + (if i * W + 0 \<le> int k \<and> int k \<le> i * W + (W - 1) then 1 else 0))"
  proof (rule bump_row)
    show "0 \<le> i * W + 0"
      using iw by simp
    show "i * W + (W - 1) < int (length cov)"
      using le Suc.prems(3) unfolding e by linarith
  qed
  then have len: "length ?cov = length cov"
    by simp
  have ih: "length (fold (\<lambda>yy c. fold (\<lambda>xx c1. bumpCell c1 (yy * W + xx)) [0..W - 1] c) [i + 1..j] ?cov)
           = length ?cov
    \<and> (\<forall>k<length ?cov.
          fold (\<lambda>yy c. fold (\<lambda>xx c1. bumpCell c1 (yy * W + xx)) [0..W - 1] c) [i + 1..j] ?cov ! k
           = ?cov ! k + (if (i + 1) * W \<le> int k \<and> int k < (j + 1) * W then 1 else 0))"
    using Suc.hyps(2) Suc.prems by (intro Suc.hyps(1)) (simp_all add: len)
  have split: "(i * W \<le> int k \<and> int k < (j + 1) * W) \<longleftrightarrow>
      (i * W + 0 \<le> int k \<and> int k \<le> i * W + (W - 1)) \<or> ((i + 1) * W \<le> int k \<and> int k < (j + 1) * W)"
    and disj: "\<not> ((i * W + 0 \<le> int k \<and> int k \<le> i * W + (W - 1)) \<and> ((i + 1) * W \<le> int k \<and> int k < (j + 1) * W))"
    for k
    using le Suc.prems(1) unfolding e by auto
  show ?case
  proof (intro conjI allI impI)
    show "length (fold (\<lambda>yy c. fold (\<lambda>xx c1. bumpCell c1 (yy * W + xx)) [0..W - 1] c) [i..j] cov)
           = length cov"
      unfolding u fold_simps using ih len by simp
  next
    fix k
    assume k: "k < length cov"
    have "fold (\<lambda>yy c. fold (\<lambda>xx c1. bumpCell c1 (yy * W + xx)) [0..W - 1] c) [i..j] cov ! k
        = ?cov ! k + (if (i + 1) * W \<le> int k \<and> int k < (j + 1) * W then 1 else 0)"
      unfolding u fold_simps using ih k len by simp
    also have "?cov ! k = cov ! k + (if i * W + 0 \<le> int k \<and> int k \<le> i * W + (W - 1) then 1 else 0)"
      using row k by simp
    finally show "fold (\<lambda>yy c. fold (\<lambda>xx c1. bumpCell c1 (yy * W + xx)) [0..W - 1] c) [i..j] cov ! k
           = cov ! k + (if i * W \<le> int k \<and> int k < (j + 1) * W then 1 else 0)"
      using split [of k] disj [of k] by (simp split: if_splits)
  qed
qed

lemma rasterPlain_full:
  assumes "0 < W" "0 < H" "length cov = nat (W * H)"
  shows "rasterPlain W 0 0 W H cov = map (\<lambda>c. c + 1) cov"
proof -
  have wh: "int (length cov) = W * H"
    using assms by simp
  have r: "length (rasterPlain W 0 0 W H cov) = length cov
    \<and> (\<forall>k<length cov. rasterPlain W 0 0 W H cov ! k
           = cov ! k + (if 0 * W \<le> int k \<and> int k < (H - 1 + 1) * W then 1 else 0))"
    unfolding rasterPlain_def
    using bump_rows [of W 0 "H - 1" cov] assms wh by (simp add: mult.commute)
  show ?thesis
  proof (rule nth_equalityI)
    show "length (rasterPlain W 0 0 W H cov) = length (map (\<lambda>c. c + 1) cov)"
      using r by simp
  next
    fix k
    assume "k < length (rasterPlain W 0 0 W H cov)"
    then have k: "k < length cov"
      using r by simp
    then have "int k < H * W"
      using wh by (simp add: mult.commute)
    then show "rasterPlain W 0 0 W H cov ! k = map (\<lambda>c. c + 1) cov ! k"
      using r k by simp
  qed
qed

lemma recordPlacement_size:
  "g_width (recordPlacement g x y tw th) = g_width g \<and>
   g_height (recordPlacement g x y tw th) = g_height g"
  by (simp add: recordPlacement_def Let_def)

lemma placeUnit_full:
  assumes "0 < W" "0 < H" "p_width params = W" "p_height params = H"
    and "g_width g = W" "g_height g = H" "\<not> p_polish params" "W = H \<or> \<not> p_rotate params"
    and "batch_w batch = W" "batch_h batch = H" "length cov = nat (W * H)"
  shows "placeUnit params batch (g, cov, rng)
           = (recordPlacement g 0 0 W H, map (\<lambda>c. c + 1) cov, rng)"
proof -
  have noswap: "\<not> (p_rotate params \<and> batch_w batch \<noteq> batch_h batch)"
    using assms by auto
  have pos: "positionForTile g W H rng = (mkPoint 0 0, rng)"
    using assms by (simp add: positionForTile_def)
  have fit: "\<not> (W \<le> 0 \<or> H \<le> 0 \<or> W > p_width params \<or> H > p_height params)"
    using assms by simp
  show ?thesis
    unfolding placeUnit_def Let_def prod.case
    using noswap fit pos assms(3,4,7,9,10) rasterPlain_full [OF assms(1,2,11)]
    by (auto simp: mkPoint_def)
qed

lemma placeUnits_full:
  assumes "0 < W" "0 < H" "p_width params = W" "p_height params = H"
    and "\<not> p_polish params" "W = H \<or> \<not> p_rotate params"
    and "batch_w batch = W" "batch_h batch = H"
  shows "g_width g = W \<Longrightarrow> g_height g = H \<Longrightarrow>
         \<exists>g1. (placeUnit params batch ^^ n) (g, replicate (nat (W * H)) c, rng)
                 = (g1, replicate (nat (W * H)) (c + of_nat n), rng)
               \<and> g_width g1 = W \<and> g_height g1 = H"
proof (induction n)
  case 0
  then show ?case by simp
next
  case (Suc n)
  then obtain g1 where g1: "(placeUnit params batch ^^ n) (g, replicate (nat (W * H)) c, rng)
                 = (g1, replicate (nat (W * H)) (c + of_nat n), rng)"
      "g_width g1 = W" "g_height g1 = H"
    by blast
  have "placeUnit params batch (g1, replicate (nat (W * H)) (c + of_nat n), rng)
      = (recordPlacement g1 0 0 W H, map (\<lambda>c. c + 1) (replicate (nat (W * H)) (c + of_nat n)), rng)"
    by (rule placeUnit_full [OF assms(1-4) g1(2,3) assms(5-8)]) simp
  then have "(placeUnit params batch ^^ Suc n) (g, replicate (nat (W * H)) c, rng)
      = (recordPlacement g1 0 0 W H, replicate (nat (W * H)) (c + of_nat (Suc n)), rng)"
    using g1(1) by (simp add: add.assoc)
  then show ?case
    using g1(2,3) recordPlacement_size [of g1 0 0 W H] by blast
qed

text \<open>
  C10. The cells of the coverage grid are 16-bit words, so a count is kept modulo 65536.
  Without polish, \<open>n\<close> placements of a tile as large as the canvas (placed at (0, 0)
  each time; the canvas is square or rotation is off, so none is skipped) leave every
  cell at \<open>n mod 65536\<close>, while \<open>n\<close> placements are reported. After 65536 of them
  every cell is back at 0, each pixel gets the water colour and the image is that of a
  map with no tile at all.
\<close>

theorem coverage_wraps:
  assumes "0 < W" "0 < H" "p_width params = W" "p_height params = H"
    and "g_width g = W" "g_height g = H" "\<not> p_polish params" "W = H \<or> \<not> p_rotate params"
  shows "fst (placeTiles g params [\<lparr>batch_w = W, batch_h = H, batch_count = int n\<rparr>]
                (replicate (nat (W * H)) 0) rng) = int n
    \<and> fst (snd (snd (placeTiles g params [\<lparr>batch_w = W, batch_h = H, batch_count = int n\<rparr>]
                (replicate (nat (W * H)) 0) rng)))
        = replicate (nat (W * H)) (word_of_nat n)
    \<and> unat (word_of_nat n :: 16 word) = n mod 65536
    \<and> (n = 65536 \<longrightarrow>
         pixelColor params (word_of_nat n) = water params
         \<and> renderPixels params
             (fst (snd (snd (placeTiles g params [\<lparr>batch_w = W, batch_h = H, batch_count = int n\<rparr>]
                (replicate (nat (W * H)) 0) rng))))
           = renderPixels params (replicate (nat (W * H)) 0))"
proof -
  let ?batch = "\<lparr>batch_w = W, batch_h = H, batch_count = int n\<rparr>"
  obtain g1 where g1: "(placeUnit params ?batch ^^ n) (g, replicate (nat (W * H)) 0, rng)
                 = (g1, replicate (nat (W * H)) (0 + of_nat n), rng)"
    using placeUnits_full [OF assms(1-4) assms(7,8), of ?batch g n 0 rng] assms(5,6)
    by auto
  have cov: "fst (snd (snd (placeTiles g params [?batch] (replicate (nat (W * H)) 0) rng)))
        = replicate (nat (W * H)) (word_of_nat n)"
    using g1 by (simp add: placeTiles_def placeBatch_def)
  have tot: "fst (placeTiles g params [?batch] (replicate (nat (W * H)) 0) rng) = int n"
    by (simp add: placeTiles_def)
  have m: "unat (word_of_nat n :: 16 word) = n mod 65536"
    by (simp add: unat_of_nat)
  have z: "(65536 :: 16 word) = 0"
    by (simp add: word_eq_iff_unsigned [where ?'a = nat])
  show ?thesis
    unfolding cov tot using m by (simp add: pixelColor_def z)
qed

theorem coverage_wraps_witness:
  "(0::int) < 10 \<and> (0::int) < 8 \<and> p_width (demo_params\<lparr>p_rotate := False\<rparr>) = 10
   \<and> p_height (demo_params\<lparr>p_rotate := False\<rparr>) = 8
   \<and> g_width demo_generator = 10 \<and> g_height demo_generator = 8
   \<and> \<not> p_polish (demo_params\<lparr>p_rotate := False\<rparr>)
   \<and> ((10::int) = 8 \<or> \<not> p_rotate (demo_params\<lparr>p_rotate := False\<rparr>))
   \<and> fst (snd (snd (placeTiles demo_generator (demo_params\<lparr>p_rotate := False\<rparr>)
             [\<lparr>batch_w = 10, batch_h = 8, batch_count = 65536\<rparr>] (replicate 80 0) demo_rng)))
       = replicate 80 0
   \<and> pixelColor (demo_params\<lparr>p_rotate := False\<rparr>) (word_of_nat 65536)
       = water (demo_params\<lparr>p_rotate := False\<rparr>)"
  using coverage_wraps [of 10 8 "demo_params\<lparr>p_rotate := False\<rparr>" demo_generator 65536 demo_rng]
  by (simp add: demo_params_def demo_generator_def)

section \<open>Double precision: rounding\<close>

text \<open>
  Rounding to the nearest integer, ties to even: within one half of its argument,
  monotone, and the identity on integers.
\<close>

lemma rne_bounds: "real_of_int (rne q) \<le> q + 1 / 2" "q - 1 / 2 \<le> real_of_int (rne q)"
  unfolding rne_def Let_def by (auto; linarith)+

lemma rne_int [simp]: "rne (real_of_int n) = n"
  unfolding rne_def Let_def by simp

lemma rne_mono: assumes "p \<le> q" shows "rne p \<le> rne q"
proof (cases "\<lfloor>p\<rfloor> = \<lfloor>q\<rfloor>")
  case True
  then show ?thesis using assms unfolding rne_def Let_def by auto
next
  case False
  then have lt: "\<lfloor>p\<rfloor> + 1 \<le> \<lfloor>q\<rfloor>" using floor_mono [OF assms] by linarith
  have "rne p \<le> \<lfloor>p\<rfloor> + 1" unfolding rne_def Let_def by auto
  moreover have "\<lfloor>q\<rfloor> \<le> rne q" unfolding rne_def Let_def by auto
  ultimately show ?thesis using lt by linarith
qed

lemma rne_ge: "real_of_int n \<le> q \<Longrightarrow> n \<le> rne q"
  using rne_mono [of "real_of_int n" q] by simp

lemma rne_le: "q \<le> real_of_int n \<Longrightarrow> rne q \<le> n"
  using rne_mono [of q "real_of_int n"] by simp

lemma rne_abs_err: "\<bar>real_of_int (rne q) - q\<bar> \<le> 1 / 2"
  using rne_bounds [of q] by linarith

text \<open>The binade of a positive number, and the spacing of the doubles in it.\<close>

lemma floor_log2_bounds:
  assumes "0 < a"
  shows "2 powi \<lfloor>log 2 a\<rfloor> \<le> a" "a < 2 powi (\<lfloor>log 2 a\<rfloor> + 1)"
proof -
  have p: "(2::real) powr real_of_int k = 2 powi k" for k
    by (rule powr_real_of_int') simp_all
  have "2 powr real_of_int \<lfloor>log 2 a\<rfloor> \<le> a \<and> a < 2 powr real_of_int (\<lfloor>log 2 a\<rfloor> + 1)"
    using floor_log_eq_powr_iff [of a 2 "\<lfloor>log 2 a\<rfloor>"] assms by (simp del: of_int_add)
  then show "2 powi \<lfloor>log 2 a\<rfloor> \<le> a" "a < 2 powi (\<lfloor>log 2 a\<rfloor> + 1)"
    unfolding p by simp_all
qed

lemma floor_log2_eqI:
  assumes "2 powi k \<le> a" "a < 2 powi (k + 1)"
  shows "\<lfloor>log 2 a\<rfloor> = k"
proof -
  have "0 < a"
    using assms(1) zero_less_power_int [of "2::real" k] by linarith
  have p: "(2::real) powr real_of_int k = 2 powi k" for k
    by (rule powr_real_of_int') simp_all
  have "2 powr real_of_int k \<le> a \<and> a < 2 powr real_of_int (k + 1)"
    unfolding p using assms by simp
  then show ?thesis
    using floor_log_eq_powr_iff [of a 2 k] \<open>0 < a\<close> by (simp del: of_int_add)
qed

lemma expo_normal:
  assumes "2 powi (- 1022) \<le> a"
  shows "2 powi expo a \<le> a" "a < 2 powi (expo a + 1)" "- 1022 \<le> expo a"
proof -
  have pos: "0 < a"
    using assms zero_less_power_int [of "2::real" "- 1022"] by linarith
  have "- 1022 \<le> \<lfloor>log 2 a\<rfloor>"
  proof (rule ccontr)
    assume "\<not> - 1022 \<le> \<lfloor>log 2 a\<rfloor>"
    then have "\<lfloor>log 2 a\<rfloor> + 1 \<le> - 1022" by linarith
    then have "(2::real) powi (\<lfloor>log 2 a\<rfloor> + 1) \<le> 2 powi (- 1022)"
      by (intro power_int_increasing) simp_all
    then show False
      using floor_log2_bounds(2) [OF pos] assms by linarith
  qed
  then have e: "expo a = \<lfloor>log 2 a\<rfloor>"
    by (simp add: expo_def)
  show "2 powi expo a \<le> a" "a < 2 powi (expo a + 1)" "- 1022 \<le> expo a"
    using floor_log2_bounds [OF pos] e \<open>- 1022 \<le> \<lfloor>log 2 a\<rfloor>\<close> by simp_all
qed

lemma expo_subnormal:
  assumes "0 < a" "a < 2 powi (- 1022)"
  shows "expo a = - 1022"
proof -
  have "\<lfloor>log 2 a\<rfloor> \<le> - 1022"
  proof (rule ccontr)
    assume "\<not> \<lfloor>log 2 a\<rfloor> \<le> - 1022"
    then have "- 1022 \<le> \<lfloor>log 2 a\<rfloor>" by linarith
    then have "(2::real) powi (- 1022) \<le> 2 powi \<lfloor>log 2 a\<rfloor>"
      by (intro power_int_increasing) simp_all
    then show False
      using floor_log2_bounds(1) [OF assms(1)] assms(2) by linarith
  qed
  then show ?thesis
    by (simp add: expo_def)
qed

lemma expo_eqI:
  assumes "2 powi k \<le> a" "a < 2 powi (k + 1)" "- 1022 \<le> k"
  shows "expo a = k"
  using floor_log2_eqI [OF assms(1,2)] assms(3) by (simp add: expo_def)

lemma expo_ge: "- 1022 \<le> expo a"
  by (simp add: expo_def)

lemma expo_mono:
  assumes "0 < a" "a \<le> b"
  shows "expo a \<le> expo b"
proof -
  have "log 2 a \<le> log 2 b"
    using assms by simp
  then have "\<lfloor>log 2 a\<rfloor> \<le> \<lfloor>log 2 b\<rfloor>"
    by (rule floor_mono)
  then show ?thesis
    by (simp add: expo_def)
qed

lemma ulp_pos: "0 < ulp a"
  by (simp add: ulp_def zero_less_power_int)

lemma pow2_split: "(2::real) powi (m + n) = 2 powi m * 2 powi n"
  by (simp add: power_int_add)

lemma ulp_times: "ulp a * 2 powi 52 = 2 powi expo a" "ulp a * 2 powi 53 = 2 powi (expo a + 1)"
proof -
  have e: "expo a - 52 + 52 = expo a" "expo a - 52 + 53 = expo a + 1"
    by simp_all
  show "ulp a * 2 powi 52 = 2 powi expo a"
    unfolding ulp_def pow2_split [symmetric] e by (rule refl)
  show "ulp a * 2 powi 53 = 2 powi (expo a + 1)"
    unfolding ulp_def pow2_split [symmetric] e by (rule refl)
qed

text \<open>
  Rounding a positive number stays in the closure of its binade, so rounding is
  monotone within a binade and across binades.
\<close>

lemma pnear_range_normal:
  assumes "2 powi (- 1022) \<le> a"
  shows "2 powi expo a \<le> pnear a" "pnear a \<le> 2 powi (expo a + 1)"
proof -
  note b = expo_normal [OF assms]
  have "real_of_int (2 ^ 52) \<le> a / ulp a"
    using b(1) ulp_pos [of a] ulp_times(1) [of a]
    by (simp add: le_divide_eq mult.commute)
  then have "2 ^ 52 \<le> rne (a / ulp a)"
    by (rule rne_ge)
  then have "real_of_int (2 ^ 52) \<le> real_of_int (rne (a / ulp a))"
    by (simp only: of_int_le_iff)
  then have "2 powi 52 * ulp a \<le> pnear a"
    unfolding pnear_def using ulp_pos [of a] by simp
  then show "2 powi expo a \<le> pnear a"
    using ulp_times(1) [of a] by (simp add: mult.commute)
  have "a / ulp a \<le> real_of_int (2 ^ 53)"
    using b(2) ulp_pos [of a] ulp_times(2) [of a]
    by (simp add: divide_le_eq mult.commute)
  then have "rne (a / ulp a) \<le> 2 ^ 53"
    by (rule rne_le)
  then have "real_of_int (rne (a / ulp a)) \<le> real_of_int (2 ^ 53)"
    by (simp only: of_int_le_iff)
  then have "pnear a \<le> 2 powi 53 * ulp a"
    unfolding pnear_def using ulp_pos [of a] by simp
  then show "pnear a \<le> 2 powi (expo a + 1)"
    using ulp_times(2) [of a] by (simp add: mult.commute)
qed

lemma pnear_range_subnormal:
  assumes "0 < a" "a < 2 powi (- 1022)"
  shows "0 \<le> pnear a" "pnear a \<le> 2 powi (- 1022)"
proof -
  note e = expo_subnormal [OF assms]
  have "real_of_int 0 \<le> a / ulp a"
    using assms(1) ulp_pos [of a] by simp
  then have "0 \<le> rne (a / ulp a)"
    by (rule rne_ge)
  then show "0 \<le> pnear a"
    unfolding pnear_def using ulp_pos [of a] by simp
  have "a / ulp a \<le> real_of_int (2 ^ 52)"
    using assms(2) ulp_pos [of a] ulp_times(1) [of a] e
    by (simp add: divide_le_eq mult.commute)
  then have "rne (a / ulp a) \<le> 2 ^ 52"
    by (rule rne_le)
  then have "real_of_int (rne (a / ulp a)) \<le> real_of_int (2 ^ 52)"
    by (simp only: of_int_le_iff)
  then have "pnear a \<le> 2 powi 52 * ulp a"
    unfolding pnear_def using ulp_pos [of a] by simp
  then show "pnear a \<le> 2 powi (- 1022)"
    using ulp_times(1) [of a] e by (simp add: mult.commute)
qed

lemma pnear_nonneg: "0 < a \<Longrightarrow> 0 \<le> pnear a"
  using pnear_range_subnormal(1) [of a] pnear_range_normal(1) [of a]
    zero_less_power_int [of "2::real" "expo a"]
  by (cases "a < 2 powi (- 1022)") (simp, linarith)

lemma pnear_mono:
  assumes "0 < a" "a \<le> b"
  shows "pnear a \<le> pnear b"
proof (cases "expo a = expo b")
  case True
  then have u: "ulp a = ulp b"
    by (simp add: ulp_def)
  have "a / ulp b \<le> b / ulp b"
    using assms(2) ulp_pos [of b] by (simp add: divide_right_mono)
  then have "rne (a / ulp b) \<le> rne (b / ulp b)"
    by (rule rne_mono)
  then have "real_of_int (rne (a / ulp b)) \<le> real_of_int (rne (b / ulp b))"
    by (simp only: of_int_le_iff)
  then show ?thesis
    unfolding pnear_def u using ulp_pos [of b] by simp
next
  case False
  then have lt: "expo a + 1 \<le> expo b"
    using expo_mono [OF assms] by linarith
  have bn: "2 powi (- 1022) \<le> b"
  proof (rule ccontr)
    assume "\<not> 2 powi (- 1022) \<le> b"
    then have "b < 2 powi (- 1022)" by simp
    then have "expo b = - 1022"
      using assms by (intro expo_subnormal) simp_all
    then show False
      using lt expo_ge [of a] by linarith
  qed
  have up: "pnear a \<le> 2 powi (expo a + 1)"
  proof (cases "a < 2 powi (- 1022)")
    case True
    have "(2::real) powi (- 1022) \<le> 2 powi (expo a + 1)"
      using expo_ge [of a] by (intro power_int_increasing) simp_all
    then show ?thesis
      using pnear_range_subnormal(2) [OF assms(1) True] by linarith
  next
    case False
    then show ?thesis
      by (intro pnear_range_normal(2)) simp
  qed
  have "(2::real) powi (expo a + 1) \<le> 2 powi expo b"
    using lt by (intro power_int_increasing) simp_all
  then show ?thesis
    using up pnear_range_normal(1) [OF bn] by linarith
qed

lemma nearest_pos: "0 < x \<Longrightarrow> nearest x = pnear x"
  by (simp add: nearest_def)

lemma nearest_neg: "x < 0 \<Longrightarrow> nearest x = - pnear (- x)"
  by (simp add: nearest_def)

lemma nearest_zero [simp]: "nearest 0 = 0"
  by (simp add: nearest_def)

lemma nearest_minus: "nearest (- x) = - nearest x"
  by (simp add: nearest_def sgn_if)

lemma nearest_nonneg: "0 \<le> x \<Longrightarrow> 0 \<le> nearest x"
  using pnear_nonneg [of x] by (cases "x = 0") (simp_all add: nearest_pos)

lemma nearest_mono:
  assumes "x \<le> y"
  shows "nearest x \<le> nearest y"
proof -
  consider "0 < x" | "x \<le> 0" "0 \<le> y" | "y < 0"
    using assms by linarith
  then show ?thesis
  proof cases
    case 1
    then show ?thesis
      using assms pnear_mono [of x y] by (simp add: nearest_pos)
  next
    case 2
    have "nearest x \<le> 0"
      using nearest_nonneg [of "- x"] 2(1) by (simp add: nearest_minus)
    then show ?thesis
      using nearest_nonneg [OF 2(2)] by linarith
  next
    case 3
    then show ?thesis
      using assms pnear_mono [of "- y" "- x"] by (simp add: nearest_neg)
  qed
qed

text \<open>
  A number with a significand below \<open>2^53\<close> and an exponent of at least -1074 is a
  double: rounding leaves it unchanged. So do all integers up to \<open>2^53\<close>, and rounding
  twice is rounding once.
\<close>

lemma pow2_less_cancel:
  assumes "(2::real) powi m < 2 powi n"
  shows "m < n"
proof (rule ccontr)
  assume "\<not> m < n"
  then have "n \<le> m" by simp
  then have "(2::real) powi n \<le> 2 powi m"
    by (intro power_int_increasing) simp_all
  then show False
    using assms by linarith
qed

lemma pnear_dyadic:
  assumes m: "0 < m" "m < 2 ^ 53" and k: "- 1074 \<le> k"
  shows "pnear (real_of_int m * 2 powi k) = real_of_int m * 2 powi k"
proof -
  define a where "a = real_of_int m * 2 powi k"
  have pk: "0 < (2::real) powi k"
    by (simp add: zero_less_power_int)
  have apos: "0 < a"
    unfolding a_def using m(1) pk by simp
  have "real_of_int m < real_of_int (2 ^ 53)"
    using m(2) by (simp only: of_int_less_iff)
  then have "a < 2 powi 53 * 2 powi k"
    unfolding a_def using pk by simp
  then have aup: "a < 2 powi (k + 53)"
    by (simp only: pow2_split [symmetric] add.commute [of 53 k])
  have le: "expo a \<le> k + 52"
  proof (cases "a < 2 powi (- 1022)")
    case True
    then show ?thesis
      using expo_subnormal [OF apos True] k by simp
  next
    case False
    then have "2 powi expo a \<le> a"
      by (intro expo_normal(1)) simp
    then have "(2::real) powi expo a < 2 powi (k + 53)"
      using aup by linarith
    then show ?thesis
      using pow2_less_cancel [of "expo a" "k + 53"] by simp
  qed
  define n where "n = nat (k + 52 - expo a)"
  define u where "u = ulp a"
  have upos: "0 < u"
    unfolding u_def by (rule ulp_pos)
  have kk: "k = (expo a - 52) + int n"
    unfolding n_def using le by simp
  have "(2::real) powi k = 2 powi (expo a - 52) * 2 powi int n"
    by (subst kk) (rule pow2_split)
  then have pw: "(2::real) powi k = u * real_of_int (2 ^ n)"
    by (simp add: ulp_def u_def)
  have a2: "a = real_of_int m * (u * real_of_int (2 ^ n))"
    unfolding a_def pw by (rule refl)
  have q: "a / u = real_of_int (m * 2 ^ n)"
    unfolding a2 using upos by simp
  have "pnear a = real_of_int (rne (a / u)) * u"
    by (simp add: pnear_def u_def)
  also have "\<dots> = real_of_int (m * 2 ^ n) * u"
    unfolding q by (simp only: rne_int)
  also have "\<dots> = a"
    unfolding a2 by simp
  finally show ?thesis
    unfolding a_def .
qed

lemma nearest_dyadic:
  assumes "\<bar>m\<bar> < 2 ^ 53" "- 1074 \<le> k"
  shows "nearest (real_of_int m * 2 powi k) = real_of_int m * 2 powi k"
proof -
  have pk: "0 < (2::real) powi k"
    by (simp add: zero_less_power_int)
  consider "m = 0" | "0 < m" | "m < 0"
    by linarith
  then show ?thesis
  proof cases
    case 1
    then show ?thesis by simp
  next
    case 2
    then have "0 < real_of_int m * 2 powi k"
      using pk by simp
    then show ?thesis
      using pnear_dyadic [of m k] 2 assms by (simp add: nearest_pos)
  next
    case 3
    then have "real_of_int m * 2 powi k < 0"
      using pk by (simp add: mult_neg_pos)
    then show ?thesis
      using pnear_dyadic [of "- m" k] 3 assms by (simp add: nearest_neg)
  qed
qed

lemma nearest_pow2: "- 1074 \<le> k \<Longrightarrow> nearest (2 powi k) = 2 powi k"
  using nearest_dyadic [of 1 k] by simp

lemma nearest_int:
  assumes "\<bar>n\<bar> \<le> 2 ^ 53"
  shows "nearest (real_of_int n) = real_of_int n"
proof (cases "\<bar>n\<bar> < 2 ^ 53")
  case True
  then show ?thesis
    using nearest_dyadic [of n 0] by simp
next
  case False
  then have "n = 2 ^ 53 \<or> n = - (2 ^ 53)"
    using assms by linarith
  then have "real_of_int n = 2 powi 53 \<or> real_of_int n = - (2 powi 53)"
    by auto
  then show ?thesis
    using nearest_pow2 [of 53] by (auto simp: nearest_minus)
qed

lemma mant_bounds:
  assumes "0 < a"
  shows "0 \<le> rne (a / ulp a)" "rne (a / ulp a) \<le> 2 ^ 53"
proof -
  have "real_of_int 0 \<le> a / ulp a"
    using assms ulp_pos [of a] by simp
  then show "0 \<le> rne (a / ulp a)"
    by (rule rne_ge)
  have "a < 2 powi (expo a + 1)"
  proof (cases "a < 2 powi (- 1022)")
    case True
    have "(2::real) powi (- 1022) \<le> 2 powi (expo a + 1)"
      using expo_ge [of a] by (intro power_int_increasing) simp_all
    then show ?thesis
      using True by linarith
  next
    case False
    then show ?thesis
      by (intro expo_normal(2)) simp
  qed
  then have "a / ulp a \<le> real_of_int (2 ^ 53)"
    using ulp_pos [of a] ulp_times(2) [of a]
    by (simp add: divide_le_eq mult.commute)
  then show "rne (a / ulp a) \<le> 2 ^ 53"
    by (rule rne_le)
qed

lemma pnear_idem:
  assumes "0 < a"
  shows "nearest (pnear a) = pnear a"
proof (cases "rne (a / ulp a) = 2 ^ 53")
  case True
  then have "pnear a = 2 powi 53 * ulp a"
    by (simp add: pnear_def)
  then have "pnear a = 2 powi (expo a + 1)"
    using ulp_times(2) [of a] by (simp add: mult.commute)
  then show ?thesis
    using nearest_pow2 [of "expo a + 1"] expo_ge [of a] by simp
next
  case False
  then have "\<bar>rne (a / ulp a)\<bar> < 2 ^ 53"
    using mant_bounds [OF assms] by linarith
  then show ?thesis
    unfolding pnear_def ulp_def
    using expo_ge [of a] by (intro nearest_dyadic) simp_all
qed

lemma nearest_idem: "nearest (nearest x) = nearest x"
proof -
  consider "x = 0" | "0 < x" | "x < 0"
    by linarith
  then show ?thesis
  proof cases
    case 1
    then show ?thesis by simp
  next
    case 2
    then show ?thesis
      by (simp add: nearest_pos pnear_idem)
  next
    case 3
    then show ?thesis
      using pnear_idem [of "- x"] by (simp add: nearest_neg nearest_minus)
  qed
qed

text \<open>
  Doubles are multiples of \<open>2^-1074\<close>, and so are their sums and differences; such a
  multiple, when positive, does not round to zero.
\<close>

lemma on_grid_pow2:
  assumes "- 1074 \<le> k"
  shows "on_grid (real_of_int m * 2 powi k)"
proof -
  define n where "n = nat (k + 1074)"
  have kk: "k = int n + (- 1074)"
    unfolding n_def using assms by simp
  have "(2::real) powi k = 2 powi int n * 2 powi (- 1074)"
    by (subst kk) (rule pow2_split)
  then have "real_of_int m * 2 powi k = real_of_int (m * 2 ^ n) * 2 powi (- 1074)"
    by simp
  then show ?thesis
    unfolding on_grid_def by blast
qed

lemma on_grid_int: "on_grid (real_of_int n)"
  using on_grid_pow2 [of 0 n] by simp

lemma on_grid_zero [simp]: "on_grid 0"
  using on_grid_int [of 0] by simp

lemma on_grid_diff:
  assumes "on_grid x" "on_grid y"
  shows "on_grid (x - y)"
proof -
  obtain i j where "x = real_of_int i * 2 powi (- 1074)" "y = real_of_int j * 2 powi (- 1074)"
    using assms unfolding on_grid_def by blast
  then have "x - y = real_of_int (i - j) * 2 powi (- 1074)"
    by (simp add: algebra_simps)
  then show ?thesis
    unfolding on_grid_def by blast
qed

lemma on_grid_add:
  assumes "on_grid x" "on_grid y"
  shows "on_grid (x + y)"
proof -
  obtain i j where "x = real_of_int i * 2 powi (- 1074)" "y = real_of_int j * 2 powi (- 1074)"
    using assms unfolding on_grid_def by blast
  then have "x + y = real_of_int (i + j) * 2 powi (- 1074)"
    by (simp add: algebra_simps)
  then show ?thesis
    unfolding on_grid_def by blast
qed

lemma on_grid_minus: "on_grid x \<Longrightarrow> on_grid (- x)"
  using on_grid_diff [of 0 x] by simp

lemma on_grid_pos:
  assumes "on_grid x" "0 < x"
  shows "2 powi (- 1074) \<le> x"
proof -
  obtain j where j: "x = real_of_int j * 2 powi (- 1074)"
    using assms(1) unfolding on_grid_def by blast
  have p: "0 < (2::real) powi (- 1074)"
    by (simp add: zero_less_power_int)
  have "0 < real_of_int j"
    using assms(2) p unfolding j by (simp add: zero_less_mult_iff)
  then have "1 \<le> real_of_int j"
    by simp
  then have "1 * 2 powi (- 1074) \<le> real_of_int j * 2 powi (- 1074)"
    using p by (intro mult_right_mono) simp_all
  then show ?thesis
    unfolding j by simp
qed

lemma on_grid_pnear: "on_grid (pnear a)"
  unfolding pnear_def ulp_def using expo_ge [of a] by (intro on_grid_pow2) simp

lemma on_grid_nearest: "on_grid (nearest x)"
proof -
  consider "x = 0" | "0 < x" | "x < 0"
    by linarith
  then show ?thesis
    by cases (simp_all add: nearest_pos nearest_neg on_grid_pnear on_grid_minus)
qed

lemma nearest_pos_grid:
  assumes "on_grid x" "0 < x"
  shows "0 < nearest x"
proof -
  have "nearest (2 powi (- 1074)) \<le> nearest x"
    by (rule nearest_mono) (rule on_grid_pos [OF assms])
  moreover have "0 < (2::real) powi (- 1074)"
    by (simp add: zero_less_power_int)
  ultimately show ?thesis
    using nearest_pow2 [of "- 1074"] by simp
qed

lemma nearest_grid_small:
  assumes "on_grid x" "\<bar>x\<bar> \<le> 2 powi (- 1022)"
  shows "nearest x = x"
proof -
  obtain j where j: "x = real_of_int j * 2 powi (- 1074)"
    using assms(1) unfolding on_grid_def by blast
  have p: "0 < (2::real) powi (- 1074)"
    by (simp add: zero_less_power_int)
  have "(2::real) powi (- 1022) = 2 powi 52 * 2 powi (- 1074)"
    by (simp only: pow2_split [symmetric]) simp
  then have "\<bar>real_of_int j\<bar> * 2 powi (- 1074) \<le> 2 powi 52 * 2 powi (- 1074)"
    using assms(2) p unfolding j by (simp add: abs_mult)
  then have "\<bar>real_of_int j\<bar> \<le> 2 powi 52"
    using p by (simp only: mult_le_cancel_right_pos)
  then have "\<bar>j\<bar> \<le> 2 ^ 52"
    by (simp flip: of_int_abs)
  then have "\<bar>j\<bar> < 2 ^ 53"
    by simp
  then show ?thesis
    unfolding j by (intro nearest_dyadic) simp_all
qed

lemma pnear_err:
  assumes "0 < a"
  shows "\<bar>pnear a - a\<bar> \<le> ulp a / 2"
proof -
  have "\<bar>real_of_int (rne (a / ulp a)) - a / ulp a\<bar> * ulp a \<le> 1 / 2 * ulp a"
    using rne_abs_err [of "a / ulp a"] ulp_pos [of a] by (intro mult_right_mono) simp_all
  moreover have "\<bar>real_of_int (rne (a / ulp a)) - a / ulp a\<bar> * ulp a = \<bar>pnear a - a\<bar>"
  proof -
    have "(real_of_int (rne (a / ulp a)) - a / ulp a) * ulp a = pnear a - a"
      using ulp_pos [of a] by (simp add: pnear_def algebra_simps)
    then have "\<bar>(real_of_int (rne (a / ulp a)) - a / ulp a) * ulp a\<bar> = \<bar>pnear a - a\<bar>"
      by simp
    then show ?thesis
      using ulp_pos [of a] by (simp add: abs_mult)
  qed
  ultimately show ?thesis
    by simp
qed

lemma ulp_half_normal:
  assumes "2 powi (- 1022) \<le> a"
  shows "ulp a / 2 \<le> a / 2 ^ 53" "ulp a / 2 \<le> pnear a / 2 ^ 53"
proof -
  have u: "ulp a / 2 = 2 powi expo a / 2 ^ 53"
    using ulp_times(2) [of a] ulp_times(1) [of a] by simp
  show "ulp a / 2 \<le> a / 2 ^ 53"
    unfolding u using expo_normal(1) [OF assms] by (simp add: divide_right_mono)
  show "ulp a / 2 \<le> pnear a / 2 ^ 53"
    unfolding u using pnear_range_normal(1) [OF assms] by (simp add: divide_right_mono)
qed

lemma ulp_half_subnormal:
  assumes "0 < a" "a < 2 powi (- 1022)"
  shows "ulp a / 2 = 2 powi (- 1075)"
proof -
  have "(2::real) powi (- 1074) = 2 powi (- 1075) * 2 powi 1"
    by (simp only: pow2_split [symmetric]) simp
  then show ?thesis
    using expo_subnormal [OF assms] by (simp add: ulp_def)
qed

text \<open>The relative error of rounding, with the absolute term for subnormal results.\<close>

lemma nearest_err:
  "\<bar>nearest x - x\<bar> \<le> \<bar>x\<bar> / 2 ^ 53 + 2 powi (- 1075)"
proof -
  have p: "0 < (2::real) powi (- 1075)"
    by (simp add: zero_less_power_int)
  have pos: "\<bar>pnear a - a\<bar> \<le> a / 2 ^ 53 + 2 powi (- 1075)" if "0 < a" for a
  proof (cases "a < 2 powi (- 1022)")
    case True
    then show ?thesis
      using pnear_err [OF that] ulp_half_subnormal [OF that True] that by simp
  next
    case False
    then have "2 powi (- 1022) \<le> a" by simp
    then show ?thesis
      using pnear_err [OF that] ulp_half_normal(1) [of a] p by linarith
  qed
  consider "x = 0" | "0 < x" | "x < 0"
    by linarith
  then show ?thesis
  proof cases
    case 1
    then show ?thesis using p by simp
  next
    case 2
    then show ?thesis
      using pos [of x] by (simp add: nearest_pos)
  next
    case 3
    then show ?thesis
      using pos [of "- x"] by (simp add: nearest_neg)
  qed
qed

lemma nearest_err_grid:
  assumes "on_grid x" "0 \<le> x"
  shows "\<bar>nearest x - x\<bar> \<le> nearest x / 2 ^ 53"
proof (cases "x \<le> 2 powi (- 1022)")
  case True
  then have "nearest x = x"
    using assms by (intro nearest_grid_small) simp_all
  then show ?thesis
    using assms(2) by simp
next
  case False
  then have n: "2 powi (- 1022) \<le> x" by simp
  then have "0 < x"
    using zero_less_power_int [of "2::real" "- 1022"] by linarith
  then show ?thesis
    using pnear_err [of x] ulp_half_normal(2) [OF n] by (simp add: nearest_pos)
qed

lemma nearest_err_normal:
  assumes "2 powi (- 1022) \<le> x"
  shows "\<bar>nearest x - x\<bar> \<le> x / 2 ^ 53"
proof -
  have "0 < x"
    using assms zero_less_power_int [of "2::real" "- 1022"] by linarith
  then show ?thesis
    using pnear_err [of x] ulp_half_normal(1) [OF assms] by (simp add: nearest_pos)
qed

lemma nearest_le_one: "x \<le> 1 \<Longrightarrow> nearest x \<le> 1"
  using nearest_mono [of x 1] nearest_int [of 1] by simp

lemma nearest_ge_int:
  assumes "real_of_int n \<le> x" "\<bar>n\<bar> \<le> 2 ^ 53"
  shows "real_of_int n \<le> nearest x"
  using nearest_mono [OF assms(1)] nearest_int [OF assms(2)] by simp

lemma nearest_le_int:
  assumes "x \<le> real_of_int n" "\<bar>n\<bar> \<le> 2 ^ 53"
  shows "nearest x \<le> real_of_int n"
  using nearest_mono [OF assms(1)] nearest_int [OF assms(2)] by simp

text \<open>Rounding at a given binade, to evaluate it on concrete numbers.\<close>

lemma nearest_eval:
  assumes "2 powi e \<le> x" "x < 2 powi (e + 1)" "- 1022 \<le> e"
  shows "nearest x = real_of_int (rne (x / 2 powi (e - 52))) * 2 powi (e - 52)"
proof -
  have "0 < x"
    using assms(1) zero_less_power_int [of "2::real" e] by linarith
  moreover have "expo x = e"
    by (rule expo_eqI [OF assms])
  ultimately show ?thesis
    by (simp add: nearest_pos pnear_def ulp_def)
qed

lemma nearest_fix_grid: "nearest a = a \<Longrightarrow> on_grid a"
  using on_grid_nearest [of a] by simp

lemma dround_finite:
  assumes "\<bar>nearest x\<bar> \<le> 2 ^ 53"
  shows "dround x = Finite (nearest x)"
proof -
  have "(2::real) ^ 53 < 2 ^ 1024"
    by (rule power_strict_increasing) simp_all
  then show ?thesis
    using assms unfolding dround_def Let_def by auto
qed

lemma dround_cases:
  "dround x = Finite (nearest x) \<or> dround x = PInf \<or> dround x = NInf"
  unfolding dround_def Let_def by auto

lemma is_double_int: "\<bar>n\<bar> \<le> 2 ^ 53 \<Longrightarrow> is_double (real_of_int n)"
proof -
  assume a: "\<bar>n\<bar> \<le> 2 ^ 53"
  then have "\<bar>real_of_int n\<bar> \<le> 2 ^ 53"
    by (metis of_int_abs of_int_le_iff of_int_numeral of_int_power)
  moreover have "(2::real) ^ 53 < 2 ^ 1024"
    by (rule power_strict_increasing) simp_all
  ultimately show ?thesis
    unfolding is_double_def using nearest_int [OF a] by linarith
qed

section \<open>Double precision: sums and products\<close>

lemma foldl_dplus_PInf [simp]: "foldl dplus PInf xs = PInf"
  by (induction xs) simp_all

lemma foldl_dplus_NInf [simp]: "foldl dplus NInf xs = NInf"
  by (induction xs) simp_all

lemma foldl_dplus_NaN [simp]: "foldl dplus NaN xs = NaN"
  by (induction xs) simp_all

lemma sum_ceiling_nonneg: "\<forall>x\<in>set xs. (0::real) \<le> x \<Longrightarrow> 0 \<le> (\<Sum>x\<leftarrow>xs. \<lceil>x\<rceil>)"
  by (induction xs) (simp_all add: add_nonneg_nonneg)

text \<open>
  A double sum of non-negative terms lies between the sum of their floors and the sum
  of their ceilings, as long as the latter stays below \<open>2^53\<close>.
\<close>

lemma dsum_bounds:
  assumes "\<forall>x\<in>set xs. 0 \<le> x" "0 \<le> lo" "real_of_int lo \<le> s" "s \<le> real_of_int hi"
    and "hi + (\<Sum>x\<leftarrow>xs. \<lceil>x\<rceil>) \<le> 2 ^ 53"
  shows "\<exists>r. foldl dplus (Finite s) xs = Finite r
           \<and> real_of_int (lo + (\<Sum>x\<leftarrow>xs. \<lfloor>x\<rfloor>)) \<le> r
           \<and> r \<le> real_of_int (hi + (\<Sum>x\<leftarrow>xs. \<lceil>x\<rceil>))"
  using assms
proof (induction xs arbitrary: s lo hi)
  case Nil
  then show ?case by simp
next
  case (Cons x xs)
  have x: "0 \<le> x" and xs: "\<forall>x\<in>set xs. 0 \<le> x"
    using Cons.prems(1) by simp_all
  have cn: "0 \<le> (\<Sum>x\<leftarrow>xs. \<lceil>x\<rceil>)"
    by (rule sum_ceiling_nonneg [OF xs])
  define lo1 where "lo1 = lo + \<lfloor>x\<rfloor>"
  define hi1 where "hi1 = hi + \<lceil>x\<rceil>"
  define s1 where "s1 = nearest (s + x)"
  have fx: "0 \<le> \<lfloor>x\<rfloor>" "\<lfloor>x\<rfloor> \<le> \<lceil>x\<rceil>"
    using x by (simp_all add: floor_le_ceiling)
  have lohi: "lo \<le> hi"
    using Cons.prems(3,4) by linarith
  have b: "0 \<le> lo1" "lo1 \<le> hi1" "hi1 + (\<Sum>x\<leftarrow>xs. \<lceil>x\<rceil>) \<le> 2 ^ 53"
  proof -
    show "0 \<le> lo1" "lo1 \<le> hi1"
      unfolding lo1_def hi1_def using Cons.prems(2) fx lohi by linarith+
    show "hi1 + (\<Sum>x\<leftarrow>xs. \<lceil>x\<rceil>) \<le> 2 ^ 53"
      unfolding hi1_def using Cons.prems(5) by simp
  qed
  then have a: "\<bar>lo1\<bar> \<le> 2 ^ 53" "\<bar>hi1\<bar> \<le> 2 ^ 53"
    using cn by linarith+
  have "real_of_int lo1 \<le> s + x"
    unfolding lo1_def using Cons.prems(3) by simp linarith
  then have l: "real_of_int lo1 \<le> s1"
    unfolding s1_def by (rule nearest_ge_int) (rule a)
  have "s + x \<le> real_of_int hi1"
    unfolding hi1_def using Cons.prems(4) by simp linarith
  then have h: "s1 \<le> real_of_int hi1"
    unfolding s1_def by (rule nearest_le_int) (rule a)
  have "hi1 \<le> 2 ^ 53"
    using a(2) by linarith
  then have "real_of_int hi1 \<le> real_of_int (2 ^ 53)"
    by (simp only: of_int_le_iff)
  moreover have "0 \<le> real_of_int lo1"
    using b(1) by simp
  ultimately have "\<bar>s1\<bar> \<le> 2 ^ 53"
    using l h by simp
  then have d: "dround (s + x) = Finite s1"
    unfolding s1_def by (rule dround_finite)
  obtain r where r: "foldl dplus (Finite s1) xs = Finite r"
      "real_of_int (lo1 + (\<Sum>x\<leftarrow>xs. \<lfloor>x\<rfloor>)) \<le> r"
      "r \<le> real_of_int (hi1 + (\<Sum>x\<leftarrow>xs. \<lceil>x\<rceil>))"
    using Cons.IH [OF xs b(1) l h b(3)] by blast
  show ?case
    using r d by (simp add: lo1_def hi1_def add.assoc)
qed

text \<open>
  The same sum stays within a relative error of \<open>n / 2^53\<close> of the exact one and
  never decreases along the way.
\<close>

lemma dsum_error:
  assumes "foldl dplus (Finite s) xs = Finite r" "\<forall>x\<in>set xs. 0 \<le> x \<and> on_grid x"
    and "0 \<le> s" "nearest s = s"
  shows "s \<le> r \<and> \<bar>r - (s + sum_list xs)\<bar> \<le> real (length xs) * (r / 2 ^ 53) \<and> nearest r = r"
  using assms
proof (induction xs arbitrary: s)
  case Nil
  then show ?case by simp
next
  case (Cons x xs)
  define s1 where "s1 = nearest (s + x)"
  have x: "0 \<le> x" "on_grid x"
    using Cons.prems(2) by simp_all
  have d: "dround (s + x) = Finite s1"
    using dround_cases [of "s + x"] Cons.prems(1) unfolding s1_def by auto
  have gs: "on_grid s"
    using on_grid_nearest [of s] Cons.prems(4) by simp
  have g: "on_grid (s + x)" "0 \<le> s + x"
    using on_grid_add [OF gs x(2)] Cons.prems(3) x(1) by simp_all
  have e: "\<bar>s1 - (s + x)\<bar> \<le> s1 / 2 ^ 53"
    unfolding s1_def by (rule nearest_err_grid [OF g])
  have m: "s \<le> s1"
    using nearest_mono [of s "s + x"] x(1) Cons.prems(4) unfolding s1_def by simp
  have f: "foldl dplus (Finite s1) xs = Finite r"
    using Cons.prems(1) d by simp
  have ih: "s1 \<le> r" "\<bar>r - (s1 + sum_list xs)\<bar> \<le> real (length xs) * (r / 2 ^ 53)" "nearest r = r"
    using Cons.IH [OF f] Cons.prems(2,3) m by (simp_all add: s1_def nearest_idem)
  have "s1 / 2 ^ 53 \<le> r / 2 ^ 53"
    using ih(1) by (simp add: divide_right_mono)
  moreover have "r - (s + sum_list (x # xs)) = (r - (s1 + sum_list xs)) + (s1 - (s + x))"
    by simp
  ultimately have "\<bar>r - (s + sum_list (x # xs))\<bar> \<le> real (length xs) * (r / 2 ^ 53) + r / 2 ^ 53"
    using e ih(2) by linarith
  then have "\<bar>r - (s + sum_list (x # xs))\<bar> \<le> real (length (x # xs)) * (r / 2 ^ 53)"
    by (simp add: algebra_simps)
  then show ?case
    using m ih(1,3) by simp
qed

lemma sum_ceiling_le:
  "(\<Sum>x\<leftarrow>xs. \<lceil>x\<rceil>) \<le> \<lceil>sum_list xs\<rceil> + int (length xs)" for xs :: "real list"
proof (induction xs)
  case Nil
  then show ?case by simp
next
  case (Cons x xs)
  have "\<lceil>x\<rceil> + \<lceil>sum_list xs\<rceil> \<le> \<lceil>x + sum_list xs\<rceil> + 1"
    by linarith
  then show ?case
    using Cons by simp
qed

lemma sum_floor_le: "real_of_int (\<Sum>x\<leftarrow>xs. \<lfloor>x\<rfloor>) \<le> sum_list xs" for xs :: "real list"
proof (induction xs)
  case Nil
  then show ?case by simp
next
  case (Cons x xs)
  show ?case
    using Cons by (auto intro!: add_mono)
qed

lemma sum_ceiling_ge: "sum_list xs \<le> real_of_int (\<Sum>x\<leftarrow>xs. \<lceil>x\<rceil>)" for xs :: "real list"
proof (induction xs)
  case Nil
  then show ?case by simp
next
  case (Cons x xs)
  show ?case
    using Cons by (auto intro!: add_mono)
qed

text \<open>
  The sum of the products of non-negative counts with one scale, each product rounded,
  against the exact product of the scale with the sum of the counts.
\<close>

lemma product_err:
  assumes "0 \<le> sc" "\<forall>c\<in>set cs. 0 \<le> c"
  shows "\<bar>(\<Sum>c\<leftarrow>cs. nearest (c * sc)) - sc * sum_list cs\<bar>
           \<le> sc * sum_list cs / 2 ^ 53 + real (length cs) * 2 powi (- 1075)"
  using assms(2)
proof (induction cs)
  case Nil
  then show ?case by simp
next
  case (Cons c cs)
  have c: "0 \<le> c * sc"
    using Cons.prems assms(1) by simp
  have e: "\<bar>nearest (c * sc) - c * sc\<bar> \<le> c * sc / 2 ^ 53 + 2 powi (- 1075)"
    using nearest_err [of "c * sc"] c by simp
  have ih: "\<bar>(\<Sum>c\<leftarrow>cs. nearest (c * sc)) - sc * sum_list cs\<bar>
           \<le> sc * sum_list cs / 2 ^ 53 + real (length cs) * 2 powi (- 1075)"
    using Cons by simp
  have "(\<Sum>c\<leftarrow>c # cs. nearest (c * sc)) - sc * sum_list (c # cs)
      = (nearest (c * sc) - c * sc) + ((\<Sum>c\<leftarrow>cs. nearest (c * sc)) - sc * sum_list cs)"
    by (simp add: algebra_simps)
  moreover have "sc * sum_list (c # cs) / 2 ^ 53 + real (length (c # cs)) * 2 powi (- 1075)
      = (c * sc / 2 ^ 53 + 2 powi (- 1075))
        + (sc * sum_list cs / 2 ^ 53 + real (length cs) * 2 powi (- 1075))"
    by (simp add: algebra_simps add_divide_distrib)
  ultimately show ?case
    using e ih by linarith
qed

lemma tiny_bound: "real n \<le> 2 ^ 20 \<Longrightarrow> real n * 2 powi (- 1075) \<le> 1 / 4"
proof -
  assume n: "real n \<le> 2 ^ 20"
  have "(2::real) powi (- 1075) \<le> 2 powi (- 22)"
    by (rule power_int_increasing) simp_all
  then have "(2::real) powi (- 1075) \<le> 1 / 2 ^ 22"
    by (simp add: power_int_minus divide_simps)
  moreover have "0 \<le> (2::real) powi (- 1075)"
    by simp
  ultimately have "real n * 2 powi (- 1075) \<le> 2 ^ 20 * (1 / 2 ^ 22)"
    using n by (intro mult_mono) simp_all
  then show ?thesis
    by simp
qed

text \<open>
  The scaled counts add up to the cap within less than one unit: for at most \<open>2^20\<close>
  counts whose double sum \<open>S'\<close> exceeds a cap between 1 and \<open>2^30\<close>, the counts times
  the rounded scale \<open>cap / S'\<close>, each rounded, sum to more than \<open>cap - 1\<close> and less
  than \<open>cap + 1\<close>.
\<close>

lemma scaled_sum_close:
  fixes cap S' :: real
  assumes cs: "\<forall>c\<in>set cs. 0 \<le> c" and n: "length cs \<le> 2 ^ 20"
    and k: "1 \<le> cap" "cap \<le> 2 ^ 30" and S': "cap < S'" "S' \<le> 2 ^ 53"
    and err: "\<bar>S' - sum_list cs\<bar> \<le> real (length cs) * (S' / 2 ^ 53)"
  shows "\<bar>(\<Sum>c\<leftarrow>cs. nearest (c * nearest (cap / S'))) - cap\<bar> < 1"
proof -
  define sc where "sc = nearest (cap / S')"
  define t where "t = cap / S'"
  define S where "S = sum_list cs"
  define A where "A = (\<Sum>c\<leftarrow>cs. nearest (c * sc))"
  define u :: real where "u = 1 / 2 ^ 53"
  define w :: real where "w = 1 / 2 ^ 33"
  have Spos: "0 < S'"
    using k S' by linarith
  have rn: "real (length cs) \<le> 2 ^ 20"
    using n by (metis of_nat_le_iff of_nat_numeral of_nat_power)
  have tS: "t * S' = cap"
    unfolding t_def using Spos by simp
  have tpos: "0 < t"
    unfolding t_def using k Spos by simp
  have "1 / 2 ^ 53 \<le> t"
    unfolding t_def using k S' Spos by (simp add: field_simps)
  moreover have "(2::real) powi (- 1022) \<le> 2 powi (- 53)"
    by (rule power_int_increasing) simp_all
  ultimately have tn: "2 powi (- 1022) \<le> t"
    by (simp add: power_int_minus divide_simps)
  have se: "\<bar>sc - t\<bar> \<le> t * u"
    using nearest_err_normal [OF tn] unfolding sc_def t_def u_def by simp
  have sc0: "0 \<le> sc"
    unfolding sc_def using tpos by (intro nearest_nonneg) (simp add: t_def)
  have S0: "0 \<le> S"
    unfolding S_def using cs by (simp add: sum_list_nonneg)
  have nu: "real (length cs) * (S' / 2 ^ 53) \<le> S' * w"
  proof -
    have "real (length cs) * (S' / 2 ^ 53) \<le> 2 ^ 20 * (S' / 2 ^ 53)"
      using rn Spos by (intro mult_right_mono) simp_all
    then show ?thesis
      unfolding w_def by simp
  qed
  have Se: "\<bar>S' - S\<bar> \<le> S' * w"
    using err nu unfolding S_def by linarith
  have ex: "x * (1 + y) = x + x * y" "x * (1 - y) = x - x * y" for x y :: real
    by (simp_all add: algebra_simps)
  have Sup: "S \<le> S' * (1 + w)" and Slo: "S' * (1 - w) \<le> S"
    unfolding ex using Se by linarith+
  have scup: "sc \<le> t * (1 + u)" and sclo: "t * (1 - u) \<le> sc"
    unfolding ex using se by linarith+
  have pe: "\<bar>A - sc * S\<bar> \<le> sc * S * u + real (length cs) * 2 powi (- 1075)"
    using product_err [OF sc0 cs] unfolding A_def S_def u_def by simp
  have tiny: "real (length cs) * 2 powi (- 1075) \<le> 1 / 4"
    by (rule tiny_bound [OF rn])
  have u0: "0 \<le> 1 - u" "0 \<le> 1 - w" "0 \<le> 1 + u"
    unfolding u_def w_def by simp_all
  have up: "sc * S \<le> cap * ((1 + u) * (1 + w))"
  proof -
    have "sc * S \<le> (t * (1 + u)) * (S' * (1 + w))"
      using scup Sup sc0 S0 tpos u0 by (intro mult_mono) simp_all
    also have "\<dots> = (t * S') * ((1 + u) * (1 + w))"
      by (simp add: algebra_simps)
    finally show ?thesis
      unfolding tS .
  qed
  have low: "cap * ((1 - u) * (1 - w)) \<le> sc * S"
  proof -
    have "(t * (1 - u)) * (S' * (1 - w)) \<le> sc * S"
      using sclo Slo sc0 S0 tpos u0 Spos by (intro mult_mono) simp_all
    moreover have "(t * (1 - u)) * (S' * (1 - w)) = (t * S') * ((1 - u) * (1 - w))"
      by (simp add: algebra_simps)
    ultimately show ?thesis
      unfolding tS by simp
  qed
  have scS0: "0 \<le> sc * S"
    using sc0 S0 by simp
  have Aup: "A \<le> cap * ((1 + u) * (1 + w)) * (1 + u) + 1 / 4"
  proof -
    have "A \<le> sc * S * (1 + u) + 1 / 4"
      unfolding ex using pe tiny by linarith
    moreover have "sc * S * (1 + u) \<le> cap * ((1 + u) * (1 + w)) * (1 + u)"
      using up u0 by (intro mult_right_mono) simp_all
    ultimately show ?thesis
      by linarith
  qed
  have Alo: "cap * ((1 - u) * (1 - w)) * (1 - u) - 1 / 4 \<le> A"
  proof -
    have "sc * S * (1 - u) - 1 / 4 \<le> A"
      unfolding ex using pe tiny by linarith
    moreover have "cap * ((1 - u) * (1 - w)) * (1 - u) \<le> sc * S * (1 - u)"
      using low u0 by (intro mult_right_mono) simp_all
    ultimately show ?thesis
      by linarith
  qed
  have c1: "(1 + u) * (1 + w) * (1 + u) \<le> 1 + 1 / 2 ^ 32"
    unfolding u_def w_def by simp
  have c2: "1 - 1 / 2 ^ 32 \<le> (1 - u) * (1 - w) * (1 - u)"
    unfolding u_def w_def by simp
  have "cap * ((1 + u) * (1 + w) * (1 + u)) \<le> cap * (1 + 1 / 2 ^ 32)"
    using c1 k by (intro mult_left_mono) simp_all
  moreover have "cap * (1 - 1 / 2 ^ 32) \<le> cap * ((1 - u) * (1 - w) * (1 - u))"
    using c2 k by (intro mult_left_mono) simp_all
  moreover have "cap * (1 / 2 ^ 32) \<le> 2 ^ 30 * (1 / 2 ^ 32)"
    using k by (intro mult_right_mono) simp_all
  moreover have "cap * (1 + 1 / 2 ^ 32) = cap + cap * (1 / 2 ^ 32)"
      "cap * (1 - 1 / 2 ^ 32) = cap - cap * (1 / 2 ^ 32)"
    by (rule ex)+
  moreover have "cap * ((1 + u) * (1 + w)) * (1 + u) = cap * ((1 + u) * (1 + w) * (1 + u))"
      "cap * ((1 - u) * (1 - w)) * (1 - u) = cap * ((1 - u) * (1 - w) * (1 - u))"
    by simp_all
  moreover have "(2::real) ^ 30 * (1 / 2 ^ 32) = 1 / 4"
    by simp
  ultimately have "A \<le> cap + 1 / 2" "cap - 1 / 2 \<le> A"
    using Aup Alo by linarith+
  then show ?thesis
    unfolding A_def sc_def by linarith
qed

section \<open>Cap and rounding: the total\<close>

lemma length_insert_by: "length (insert_by cmp a bs) = Suc (length bs)"
  by (induction bs) simp_all

lemma set_insert_by: "set (insert_by cmp a bs) = insert a (set bs)"
  by (induction bs) auto

lemma length_sort_by: "length (sort_by cmp as) = length as"
  unfolding sort_by_def by (induction as) (simp_all add: length_insert_by)

lemma set_sort_by: "set (sort_by cmp as) = set as"
  unfolding sort_by_def by (induction as) (simp_all add: set_insert_by)

lemma sum_list_update_int:
  "i < length xs \<Longrightarrow> sum_list (xs[i := v]) = sum_list xs - xs ! i + (v::int)"
  by (induction xs arbitrary: i) (auto simp: nth_Cons split: nat.splits)

lemma length_fold_addUnit: "length (fold addUnit fs fl) = length fl"
  by (induction fs arbitrary: fl) (simp_all add: addUnit_def)

lemma sum_fold_addUnit:
  "\<forall>f\<in>set fs. fst f < length fl \<Longrightarrow>
   sum_list (fold addUnit fs fl) = sum_list fl + int (length fs)"
proof (induction fs arbitrary: fl)
  case Nil
  then show ?case by simp
next
  case (Cons f fs)
  have "fst f < length fl"
    using Cons.prems by simp
  then have s: "sum_list (addUnit f fl) = sum_list fl + 1"
    by (simp add: addUnit_def sum_list_update_int)
  have "\<forall>f\<in>set fs. fst f < length (addUnit f0 fl)" for f0
    using Cons.prems by (simp add: addUnit_def)
  then show ?case
    using Cons.IH [of "addUnit f fl"] s by simp
qed

lemma nonneg_fold_addUnit:
  "\<forall>c\<in>set fl. 0 \<le> c \<Longrightarrow> \<forall>c\<in>set (fold addUnit fs fl). 0 \<le> c"
proof (induction fs arbitrary: fl)
  case Nil
  then show ?case by simp
next
  case (Cons f fs)
  have "\<forall>c\<in>set (addUnit f fl). 0 \<le> c"
  proof
    fix c
    assume "c \<in> set (addUnit f fl)"
    then have "c \<in> insert (fl ! fst f + 1) (set fl)"
      unfolding addUnit_def using set_update_subset_insert by fastforce
    moreover have "0 \<le> fl ! fst f + 1" if "fst f < length fl"
      using Cons.prems that by (simp add: add_nonneg_nonneg)
    moreover have "addUnit f fl = fl" if "\<not> fst f < length fl"
      using that by (simp add: addUnit_def list_update_beyond)
    ultimately show "0 \<le> c"
      using Cons.prems \<open>c \<in> set (addUnit f fl)\<close> by (cases "fst f < length fl") auto
  qed
  then show ?case
    using Cons.IH by simp
qed

lemma fractions_index:
  "f \<in> set (fractions specs capLimit) \<Longrightarrow> fst f < length specs"
  unfolding fractions_def adjustedCounts_def
  by (auto simp: in_set_enumerate_eq)

text \<open>
  An adjusted count has a positive remainder exactly when it is not an integer, so the
  number of candidates is the sum of the ceilings minus the sum of the floors.
\<close>

lemma fracOf_pos_iff:
  assumes "on_grid a"
  shows "fracOf a > 0 \<longleftrightarrow> a - real_of_int \<lfloor>a\<rfloor> > 0"
proof
  assume "a - real_of_int \<lfloor>a\<rfloor> > 0"
  moreover have "on_grid (a - real_of_int \<lfloor>a\<rfloor>)"
    by (rule on_grid_diff [OF assms on_grid_int])
  ultimately show "fracOf a > 0"
    unfolding fracOf_def by (intro nearest_pos_grid)
next
  assume p: "fracOf a > 0"
  show "a - real_of_int \<lfloor>a\<rfloor> > 0"
  proof (rule ccontr)
    assume "\<not> a - real_of_int \<lfloor>a\<rfloor> > 0"
    moreover have "0 \<le> a - real_of_int \<lfloor>a\<rfloor>"
      by linarith
    ultimately have "a - real_of_int \<lfloor>a\<rfloor> = 0"
      by linarith
    then show False
      using p by (simp add: fracOf_def)
  qed
qed

lemma ceiling_floor_diff: "\<lceil>a\<rceil> - \<lfloor>a\<rfloor> = (if a - real_of_int \<lfloor>a\<rfloor> > 0 then 1 else 0)" for a :: real
proof (cases "a - real_of_int \<lfloor>a\<rfloor> > 0")
  case True
  then have "\<lceil>a\<rceil> = \<lfloor>a\<rfloor> + 1"
    by (intro ceiling_unique) (simp, linarith)
  then show ?thesis
    using True by simp
next
  case False
  moreover have "0 \<le> a - real_of_int \<lfloor>a\<rfloor>"
    by linarith
  ultimately have "a = real_of_int \<lfloor>a\<rfloor>"
    by linarith
  then have "\<lceil>a\<rceil> = \<lfloor>a\<rfloor>"
    by (metis ceiling_of_int)
  then show ?thesis
    using False by simp
qed

lemma fraction_count:
  assumes "\<forall>a\<in>set as. 0 \<le> a \<and> on_grid a"
  shows "int (length (filter (\<lambda>(i, a). \<not> a \<le> 0 \<and> fracOf a > 0) (enumerate m as)))
           = (\<Sum>a\<leftarrow>as. \<lceil>a\<rceil>) - (\<Sum>a\<leftarrow>as. \<lfloor>a\<rfloor>)"
  using assms
proof (induction as arbitrary: m)
  case Nil
  then show ?case by simp
next
  case (Cons a as)
  have a: "0 \<le> a" "on_grid a"
    using Cons.prems by simp_all
  have ih: "int (length (filter (\<lambda>(i, a). \<not> a \<le> 0 \<and> fracOf a > 0) (enumerate (Suc m) as)))
           = (\<Sum>a\<leftarrow>as. \<lceil>a\<rceil>) - (\<Sum>a\<leftarrow>as. \<lfloor>a\<rfloor>)"
    using Cons.prems by (intro Cons.IH) simp
  have c: "(\<not> a \<le> 0 \<and> fracOf a > 0) \<longleftrightarrow> a - real_of_int \<lfloor>a\<rfloor> > 0"
  proof -
    have "\<not> a \<le> 0" if "a - real_of_int \<lfloor>a\<rfloor> > 0"
      using that a(1) by (cases "a = 0") auto
    then show ?thesis
      using fracOf_pos_iff [OF a(2)] by blast
  qed
  show ?case
    using ih c ceiling_floor_diff [of a] by (cases "a - real_of_int \<lfloor>a\<rfloor> > 0") simp_all
qed

lemma fractions_length:
  assumes "\<forall>a\<in>set (adjustedCounts specs capLimit). 0 \<le> a \<and> on_grid a"
  shows "int (length (fractions specs capLimit))
           = (\<Sum>a\<leftarrow>adjustedCounts specs capLimit. \<lceil>a\<rceil>)
             - (\<Sum>a\<leftarrow>adjustedCounts specs capLimit. \<lfloor>a\<rfloor>)"
  unfolding fractions_def using fraction_count [OF assms, of 0] by simp

lemma baseFloors_nonneg_eq:
  assumes "\<forall>a\<in>set (adjustedCounts specs capLimit). 0 \<le> a"
  shows "baseFloors specs capLimit = map floor (adjustedCounts specs capLimit)"
proof -
  have "(if a \<le> 0 then 0 else \<lfloor>a\<rfloor>) = \<lfloor>a\<rfloor>" if "0 \<le> a" for a :: real
    using that by (cases "a = 0") auto
  then show ?thesis
    unfolding baseFloors_def using assms by (intro map_cong) auto
qed

lemma scaledTotals_nonneg_eq:
  assumes "\<forall>a\<in>set (adjustedCounts specs capLimit). 0 \<le> a"
  shows "scaledTotals specs capLimit = adjustedCounts specs capLimit"
proof -
  have "(if a \<le> 0 then 0 else a) = a" if "0 \<le> a" for a :: real
    using that by auto
  then show ?thesis
    unfolding scaledTotals_def using assms by (intro map_idI) auto
qed

lemma sum_floor_filter:
  "\<forall>a\<in>set as. (0::real) \<le> a \<Longrightarrow>
   (\<Sum>a\<leftarrow>filter (\<lambda>a. \<not> a \<le> 0) as. \<lfloor>a\<rfloor>) = (\<Sum>a\<leftarrow>as. \<lfloor>a\<rfloor>)"
proof (induction as)
  case Nil
  then show ?case by simp
next
  case (Cons a as)
  then show ?case
    by (cases "a = 0") auto
qed

lemma totalFloors_exact:
  assumes nn: "\<forall>a\<in>set (adjustedCounts specs capLimit). 0 \<le> a"
    and le: "(\<Sum>a\<leftarrow>adjustedCounts specs capLimit. \<lfloor>a\<rfloor>) \<le> 2 ^ 53"
  shows "totalFloors specs capLimit
           = Finite (real_of_int (\<Sum>a\<leftarrow>adjustedCounts specs capLimit. \<lfloor>a\<rfloor>))"
proof -
  let ?as = "adjustedCounts specs capLimit"
  let ?xs = "map (\<lambda>a. real_of_int \<lfloor>a\<rfloor>) (filter (\<lambda>a. \<not> a \<le> 0) ?as)"
  have s: "(\<Sum>x\<leftarrow>?xs. \<lfloor>x\<rfloor>) = (\<Sum>a\<leftarrow>?as. \<lfloor>a\<rfloor>)" "(\<Sum>x\<leftarrow>?xs. \<lceil>x\<rceil>) = (\<Sum>a\<leftarrow>?as. \<lfloor>a\<rfloor>)"
    using sum_floor_filter [OF nn] by (simp_all add: o_def)
  have x: "\<forall>x\<in>set ?xs. 0 \<le> x"
    using nn by auto
  obtain r where r: "foldl dplus (Finite 0) ?xs = Finite r"
      "real_of_int (0 + (\<Sum>x\<leftarrow>?xs. \<lfloor>x\<rfloor>)) \<le> r" "r \<le> real_of_int (0 + (\<Sum>x\<leftarrow>?xs. \<lceil>x\<rceil>))"
    using dsum_bounds [OF x, of 0 0 0] le s by auto
  then have "r = real_of_int (\<Sum>a\<leftarrow>?as. \<lfloor>a\<rfloor>)"
    unfolding s by simp
  then show ?thesis
    using r(1) by (simp add: totalFloors_def)
qed

text \<open>
  Once the floors sum to \<open>F\<close>, the target is an integer \<open>T\<close> and
  \<open>F \<le> T \<le> F + k\<close> for the number \<open>k\<close> of entries with a positive remainder,
  the final counts sum to \<open>T\<close>.
\<close>

lemma finalFloors_reach:
  assumes fl: "\<forall>c\<in>set (baseFloors specs capLimit). 0 \<le> c"
    and tf: "totalFloors specs capLimit = Finite (real_of_int (sum_list (baseFloors specs capLimit)))"
    and tg: "targetTotal specs capLimit = Finite (real_of_int T)"
    and lo: "sum_list (baseFloors specs capLimit) \<le> T"
    and hi: "T \<le> sum_list (baseFloors specs capLimit) + int (length (fractions specs capLimit))"
    and sz: "T - sum_list (baseFloors specs capLimit) \<le> 2 ^ 53"
  shows "sum_list (finalFloors specs capLimit) = T"
    and "length (finalFloors specs capLimit) = length specs"
    and "\<forall>c\<in>set (finalFloors specs capLimit). 0 \<le> c"
proof -
  let ?fl = "baseFloors specs capLimit"
  let ?F = "sum_list ?fl"
  let ?sorted = "sort_by cmpLargestFirst (fractions specs capLimit)"
  have len: "length ?fl = length specs"
    by (simp add: baseFloors_def adjustedCounts_def)
  have nl: "\<not> dless (targetTotal specs capLimit) (totalFloors specs capLimit)"
    using lo by (simp add: tf tg)
  have dm: "dminus (Finite (real_of_int T)) (Finite (real_of_int ?F)) = Finite (real_of_int (T - ?F))"
  proof -
    have "\<bar>T - ?F\<bar> \<le> 2 ^ 53"
      using lo sz by simp
    then have "nearest (real_of_int (T - ?F)) = real_of_int (T - ?F)"
      by (rule nearest_int)
    moreover have "\<bar>real_of_int (T - ?F)\<bar> \<le> 2 ^ 53"
      using \<open>\<bar>T - ?F\<bar> \<le> 2 ^ 53\<close> by (metis of_int_abs of_int_le_iff of_int_numeral of_int_power)
    ultimately show ?thesis
      using dround_finite [of "real_of_int (T - ?F)"] by simp
  qed
  have ff: "finalFloors specs capLimit =
      (if ?F < T
       then fold addUnit (slice0 (Finite (real_of_int (T - ?F))) ?sorted) ?fl
       else ?fl)"
    using nl dm by (simp add: finalFloors_def Let_def tf tg)
  show "length (finalFloors specs capLimit) = length specs"
    by (simp add: ff length_fold_addUnit len)
  show "\<forall>c\<in>set (finalFloors specs capLimit). 0 \<le> c"
    unfolding ff using nonneg_fold_addUnit [OF fl] fl by (simp split: if_splits)
  show "sum_list (finalFloors specs capLimit) = T"
  proof (cases "?F < T")
    case False
    then show ?thesis
      using lo by (simp add: ff)
  next
    case True
    let ?taken = "slice0 (Finite (real_of_int (T - ?F))) ?sorted"
    have tk: "?taken = take (nat (T - ?F)) ?sorted"
      using True hi by (simp add: slice0_def length_sort_by)
    have lt: "int (length ?taken) = T - ?F"
      unfolding tk using True hi by (simp add: length_sort_by)
    have idx: "\<forall>f\<in>set ?taken. fst f < length ?fl"
    proof
      fix f
      assume "f \<in> set ?taken"
      then have "f \<in> set ?sorted"
        unfolding tk by (rule in_set_takeD)
      then show "fst f < length ?fl"
        using fractions_index [of f specs capLimit] by (simp add: set_sort_by len)
    qed
    have "sum_list (finalFloors specs capLimit) = ?F + int (length ?taken)"
      using True sum_fold_addUnit [OF idx] by (simp only: ff if_True)
    then show ?thesis
      using lt by simp
  qed
qed

lemma batches_sum:
  "length ss = length cs \<Longrightarrow> \<forall>c\<in>set cs. 0 \<le> c \<Longrightarrow>
   sum_list (map batch_count (map (\<lambda>(s, c). mkBatch s c) (filter (\<lambda>(s, c). \<not> c \<le> 0) (zip ss cs))))
     = sum_list cs"
  by (induction ss cs rule: list_induct2) (auto simp: mkBatch_def)

lemma batches_positive:
  "list_all (\<lambda>b. 0 < batch_count b)
     (map (\<lambda>(s, c). mkBatch s c) (filter (\<lambda>(s, c). \<not> c \<le> 0) ps))"
  by (induction ps) (auto simp: mkBatch_def)

lemma finalizeTileBatches_positive:
  "list_all (\<lambda>b. 0 < batch_count b) (finalizeTileBatches specs capLimit)"
  unfolding finalizeTileBatches_def by (simp add: batches_positive)

text \<open>The size bounds under which the counts are summed without overflow.\<close>

lemma counts_sum:
  assumes cnt: "\<forall>s\<in>set specs. nearest (spec_count s) = spec_count s \<and> 0 \<le> spec_count s"
    and n: "length specs \<le> 2 ^ 20" and sz: "sum_list (map spec_count specs) \<le> 2 ^ 52"
  shows "(\<Sum>c\<leftarrow>map spec_count specs. \<lceil>c\<rceil>) \<le> 2 ^ 53"
    and "\<exists>S'. sumCounts specs = Finite S'
           \<and> real_of_int (\<Sum>c\<leftarrow>map spec_count specs. \<lfloor>c\<rfloor>) \<le> S'
           \<and> S' \<le> real_of_int (\<Sum>c\<leftarrow>map spec_count specs. \<lceil>c\<rceil>)
           \<and> 0 \<le> S' \<and> nearest S' = S'
           \<and> \<bar>S' - sum_list (map spec_count specs)\<bar> \<le> real (length specs) * (S' / 2 ^ 53)"
proof -
  let ?cs = "map spec_count specs"
  have "\<lceil>sum_list ?cs\<rceil> \<le> 4503599627370496"
    using sz by (simp add: ceiling_le_iff)
  moreover have "int (length ?cs) \<le> 1048576"
    using n by simp
  ultimately have "(\<Sum>c\<leftarrow>?cs. \<lceil>c\<rceil>) \<le> 9007199254740992"
    using sum_ceiling_le [of ?cs] by linarith
  then show c: "(\<Sum>c\<leftarrow>?cs. \<lceil>c\<rceil>) \<le> 2 ^ 53"
    by simp
  have nn: "\<forall>x\<in>set ?cs. 0 \<le> x"
    using cnt by simp
  have g: "\<forall>x\<in>set ?cs. 0 \<le> x \<and> on_grid x"
    using cnt nearest_fix_grid by auto
  obtain r where r: "foldl dplus (Finite 0) ?cs = Finite r"
      "real_of_int (0 + (\<Sum>x\<leftarrow>?cs. \<lfloor>x\<rfloor>)) \<le> r" "r \<le> real_of_int (0 + (\<Sum>x\<leftarrow>?cs. \<lceil>x\<rceil>))"
    using dsum_bounds [OF nn, of 0 0 0] c by auto
  have e: "0 \<le> r \<and> \<bar>r - (0 + sum_list ?cs)\<bar> \<le> real (length ?cs) * (r / 2 ^ 53) \<and> nearest r = r"
    by (rule dsum_error [OF r(1) g]) simp_all
  show "\<exists>S'. sumCounts specs = Finite S'
           \<and> real_of_int (\<Sum>c\<leftarrow>?cs. \<lfloor>c\<rfloor>) \<le> S'
           \<and> S' \<le> real_of_int (\<Sum>c\<leftarrow>?cs. \<lceil>c\<rceil>)
           \<and> 0 \<le> S' \<and> nearest S' = S'
           \<and> \<bar>S' - sum_list ?cs\<bar> \<le> real (length specs) * (S' / 2 ^ 53)"
    using r e by (simp add: sumCounts_def)
qed

lemma adjusted_unscaled:
  assumes cnt: "\<forall>s\<in>set specs. nearest (spec_count s) = spec_count s \<and> 0 \<le> spec_count s"
    and sc: "scaleFor specs capLimit = 1"
  shows "adjustedCounts specs capLimit = map spec_count specs"
  unfolding adjustedCounts_def sc using cnt by simp

lemma adjusted_grid:
  "\<forall>a\<in>set (adjustedCounts specs capLimit). on_grid a"
  unfolding adjustedCounts_def by (simp add: on_grid_nearest)

lemma adjusted_nonneg:
  assumes "\<forall>s\<in>set specs. 0 \<le> spec_count s" "0 \<le> scaleFor specs capLimit"
  shows "\<forall>a\<in>set (adjustedCounts specs capLimit). 0 \<le> a"
  unfolding adjustedCounts_def using assms by (auto intro!: nearest_nonneg)

lemma js_round_ge: "real_of_int m \<le> x \<Longrightarrow> m \<le> js_round x"
  unfolding js_round_def by (simp add: le_floor_iff)

lemma js_round_le: "x \<le> real_of_int m \<Longrightarrow> js_round x \<le> m"
  unfolding js_round_def by (simp add: floor_le_iff)

text \<open>
  The state before the adjustment, for counts that are non-negative doubles, at most
  \<open>2^20\<close> of them adding up to at most \<open>2^52\<close>, and a cap that is an integer between 0
  and \<open>2^30\<close>: the floors sum to some \<open>F\<close> without rounding, the target is the integer
  \<open>T\<close> that the specification names, and \<open>F \<le> T \<le> F + k\<close> for the number \<open>k\<close> of
  candidates.
\<close>

lemma before_adjustment:
  assumes cnt: "\<forall>s\<in>set specs. nearest (spec_count s) = spec_count s \<and> 0 \<le> spec_count s"
    and n: "length specs \<le> 2 ^ 20" and sz: "sum_list (map spec_count specs) \<le> 2 ^ 52"
    and k: "0 \<le> k" "k \<le> 2 ^ 30"
  shows "\<exists>S' T. sumCounts specs = Finite S'
     \<and> T = (if 0 < k then min k (js_round S') else js_round S')
     \<and> (\<forall>c\<in>set (baseFloors specs (real_of_int k)). 0 \<le> c)
     \<and> totalFloors specs (real_of_int k)
         = Finite (real_of_int (sum_list (baseFloors specs (real_of_int k))))
     \<and> targetTotal specs (real_of_int k) = Finite (real_of_int T)
     \<and> sum_list (baseFloors specs (real_of_int k)) \<le> T
     \<and> T \<le> sum_list (baseFloors specs (real_of_int k))
              + int (length (fractions specs (real_of_int k)))
     \<and> T \<le> 2 ^ 53"
proof -
  let ?cap = "real_of_int k"
  let ?cs = "map spec_count specs"
  let ?as = "adjustedCounts specs ?cap"
  obtain S' where S': "sumCounts specs = Finite S'"
      "real_of_int (\<Sum>c\<leftarrow>?cs. \<lfloor>c\<rfloor>) \<le> S'" "S' \<le> real_of_int (\<Sum>c\<leftarrow>?cs. \<lceil>c\<rceil>)"
      "0 \<le> S'" "nearest S' = S'"
      "\<bar>S' - sum_list ?cs\<bar> \<le> real (length specs) * (S' / 2 ^ 53)"
    using counts_sum(2) [OF cnt n sz] by blast
  note cb = counts_sum(1) [OF cnt n sz]
  have nn: "\<forall>s\<in>set specs. 0 \<le> spec_count s"
    using cnt by simp
  have S53: "S' \<le> 2 ^ 53"
  proof -
    have "real_of_int (\<Sum>c\<leftarrow>?cs. \<lceil>c\<rceil>) \<le> real_of_int (2 ^ 53)"
      using cb by (simp only: of_int_le_iff)
    then show ?thesis
      using S'(3) by simp
  qed
  show ?thesis
  proof (cases "0 < k \<and> ?cap < S'")
    case False
    then have sc: "scaleFor specs ?cap = 1"
      by (auto simp: scaleFor_def S')
    have as: "?as = ?cs"
      by (rule adjusted_unscaled [OF cnt sc])
    have an: "\<forall>a\<in>set ?as. 0 \<le> a" and ag: "\<forall>a\<in>set ?as. 0 \<le> a \<and> on_grid a"
      using adjusted_nonneg [OF nn, of ?cap] adjusted_grid [of specs ?cap] sc by simp_all
    have bf: "baseFloors specs ?cap = map floor ?cs"
      using baseFloors_nonneg_eq [OF an] as by simp
    have F: "sum_list (baseFloors specs ?cap) = (\<Sum>c\<leftarrow>?cs. \<lfloor>c\<rfloor>)"
      by (simp add: bf o_def)
    have fc: "(\<Sum>c\<leftarrow>?cs. \<lfloor>c\<rfloor>) \<le> (\<Sum>c\<leftarrow>?cs. \<lceil>c\<rceil>)"
      using S'(2,3) by linarith
    have tf: "totalFloors specs ?cap = Finite (real_of_int (sum_list (baseFloors specs ?cap)))"
      using totalFloors_exact [OF an] cb fc unfolding as F by simp
    have st: "scaledTotals specs ?cap = ?cs"
      using scaledTotals_nonneg_eq [OF an] as by simp
    have fl: "int (length (fractions specs ?cap)) = (\<Sum>c\<leftarrow>?cs. \<lceil>c\<rceil>) - (\<Sum>c\<leftarrow>?cs. \<lfloor>c\<rfloor>)"
      using fractions_length [OF ag] unfolding as .
    define T where "T = (if 0 < k then min k (js_round S') else js_round S')"
    have rd: "math_round (foldl dplus (Finite 0) (scaledTotals specs ?cap))
        = Finite (real_of_int (js_round S'))"
      using S'(1) by (simp add: st sumCounts_def)
    have tg: "targetTotal specs ?cap = Finite (real_of_int T)"
      unfolding targetTotal_def Let_def rd T_def sc
      by (simp add: dmin_def min_def)
    have r1: "(\<Sum>c\<leftarrow>?cs. \<lfloor>c\<rfloor>) \<le> js_round S'"
      by (rule js_round_ge [OF S'(2)])
    have r2: "js_round S' \<le> (\<Sum>c\<leftarrow>?cs. \<lceil>c\<rceil>)"
      by (rule js_round_le [OF S'(3)])
    have r3: "(\<Sum>c\<leftarrow>?cs. \<lfloor>c\<rfloor>) \<le> k" if "0 < k"
    proof -
      have "S' \<le> real_of_int k"
        using False that by simp
      then have "real_of_int (\<Sum>c\<leftarrow>?cs. \<lfloor>c\<rfloor>) \<le> real_of_int k"
        using S'(2) by linarith
      then show ?thesis
        by (simp only: of_int_le_iff)
    qed
    have lo: "sum_list (baseFloors specs ?cap) \<le> T"
      unfolding F T_def using r1 r3 by simp
    have tr: "T \<le> js_round S'"
      unfolding T_def by simp
    have hi: "T \<le> sum_list (baseFloors specs ?cap) + int (length (fractions specs ?cap))"
      unfolding F fl using r2 tr by simp
    have t53: "T \<le> 2 ^ 53"
      using r2 cb tr by simp
    have fn: "\<forall>c\<in>set (baseFloors specs ?cap). 0 \<le> c"
      unfolding bf using nn by auto
    show ?thesis
      using S'(1) T_def fn tf tg lo hi t53 by blast
  next
    case True
    define sc where "sc = nearest (?cap / S')"
    have scd: "scaleFor specs ?cap = sc"
      using True by (simp add: scaleFor_def S' sc_def)
    have q: "0 \<le> ?cap / S'" "?cap / S' \<le> 1"
      using True by simp_all
    have sc01: "0 \<le> sc" "sc \<le> 1"
      unfolding sc_def using q nearest_nonneg nearest_le_one by simp_all
    have an: "\<forall>a\<in>set ?as. 0 \<le> a" and ag: "\<forall>a\<in>set ?as. 0 \<le> a \<and> on_grid a"
      using adjusted_nonneg [OF nn, of ?cap] adjusted_grid [of specs ?cap] sc01 scd by simp_all
    have cap: "1 \<le> ?cap" "?cap \<le> 2 ^ 30"
    proof -
      show "1 \<le> ?cap"
        using True by simp
      have "real_of_int k \<le> real_of_int (2 ^ 30)"
        using k(2) by (simp only: of_int_le_iff)
      then show "?cap \<le> 2 ^ 30"
        by simp
    qed
    have cl: "\<bar>(\<Sum>c\<leftarrow>?cs. nearest (c * nearest (?cap / S'))) - ?cap\<bar> < 1"
      using cnt n cap True S53 S'(6) by (intro scaled_sum_close) simp_all
    have asum: "sum_list ?as = (\<Sum>c\<leftarrow>?cs. nearest (c * nearest (?cap / S')))"
      by (simp add: adjustedCounts_def scd sc_def o_def)
    have A: "\<bar>sum_list ?as - ?cap\<bar> < 1"
      using cl asum by simp
    have bf: "baseFloors specs ?cap = map floor ?as"
      by (rule baseFloors_nonneg_eq [OF an])
    have F: "sum_list (baseFloors specs ?cap) = (\<Sum>a\<leftarrow>?as. \<lfloor>a\<rfloor>)"
      by (simp add: bf o_def)
    have "real_of_int (\<Sum>a\<leftarrow>?as. \<lfloor>a\<rfloor>) < real_of_int (k + 1)"
      using sum_floor_le [of ?as] A by simp
    then have lo: "(\<Sum>a\<leftarrow>?as. \<lfloor>a\<rfloor>) \<le> k"
      by linarith
    have "real_of_int (k - 1) < real_of_int (\<Sum>a\<leftarrow>?as. \<lceil>a\<rceil>)"
      using sum_ceiling_ge [of ?as] A by simp
    then have hi: "k \<le> (\<Sum>a\<leftarrow>?as. \<lceil>a\<rceil>)"
      by linarith
    have tf: "totalFloors specs ?cap = Finite (real_of_int (sum_list (baseFloors specs ?cap)))"
      unfolding F using lo k(2) by (intro totalFloors_exact [OF an]) simp
    have fl: "int (length (fractions specs ?cap)) = (\<Sum>a\<leftarrow>?as. \<lceil>a\<rceil>) - (\<Sum>a\<leftarrow>?as. \<lfloor>a\<rfloor>)"
      by (rule fractions_length [OF ag])
    have kr: "k \<le> js_round S'"
      using True by (intro js_round_ge) simp
    have tg: "targetTotal specs ?cap = Finite (real_of_int k)"
    proof (cases "sc < 1")
      case True
      then show ?thesis
        using \<open>0 < k \<and> ?cap < S'\<close> by (simp add: targetTotal_def Let_def scd)
    next
      case False
      then have sc1: "scaleFor specs ?cap = 1"
        using sc01 scd by simp
      have as: "?as = ?cs"
        by (rule adjusted_unscaled [OF cnt sc1])
      have st: "scaledTotals specs ?cap = ?cs"
        using scaledTotals_nonneg_eq [OF an] as by simp
      have rd: "math_round (foldl dplus (Finite 0) (scaledTotals specs ?cap))
          = Finite (real_of_int (js_round S'))"
        using S'(1) by (simp add: st sumCounts_def)
      show ?thesis
        unfolding targetTotal_def Let_def rd sc1
        using \<open>0 < k \<and> ?cap < S'\<close> kr by (simp add: dmin_def)
    qed
    define T where "T = (if 0 < k then min k (js_round S') else js_round S')"
    have Tk: "T = k"
      unfolding T_def using True kr by simp
    have fn: "\<forall>c\<in>set (baseFloors specs ?cap). 0 \<le> c"
      unfolding bf using an by auto
    have t53: "T \<le> 2 ^ 53"
      unfolding Tk using k(2) by simp
    have lo': "sum_list (baseFloors specs ?cap) \<le> T"
      unfolding Tk F by (rule lo)
    have hi': "T \<le> sum_list (baseFloors specs ?cap) + int (length (fractions specs ?cap))"
      unfolding Tk F fl using hi by simp
    have tg': "targetTotal specs ?cap = Finite (real_of_int T)"
      unfolding Tk by (rule tg)
    show ?thesis
      using S'(1) T_def fn tf tg' lo' hi' t53 by blast
  qed
qed

lemma finalizeTileBatches_sum:
  assumes cnt: "\<forall>s\<in>set specs. is_double (spec_count s) \<and> 0 \<le> spec_count s"
    and n: "length specs \<le> 2 ^ 20" and sz: "sum_list (map spec_count specs) \<le> 2 ^ 52"
    and k: "0 \<le> k" "k \<le> 2 ^ 30"
  shows "\<exists>S T. sumCounts specs = Finite S
     \<and> T = (if 0 < k then min k (js_round S) else js_round S)
     \<and> targetTotal specs (real_of_int k) = Finite (real_of_int T)
     \<and> \<not> dless (targetTotal specs (real_of_int k)) (totalFloors specs (real_of_int k))
     \<and> sum_list (finalFloors specs (real_of_int k)) = T
     \<and> sum_list (map batch_count (finalizeTileBatches specs (real_of_int k))) = T"
proof -
  let ?cap = "real_of_int k"
  let ?F = "sum_list (baseFloors specs ?cap)"
  have cnt': "\<forall>s\<in>set specs. nearest (spec_count s) = spec_count s \<and> 0 \<le> spec_count s"
    using cnt by (simp add: is_double_def)
  obtain S T where b: "sumCounts specs = Finite S"
      "T = (if 0 < k then min k (js_round S) else js_round S)"
      "\<forall>c\<in>set (baseFloors specs ?cap). 0 \<le> c"
      "totalFloors specs ?cap = Finite (real_of_int ?F)"
      "targetTotal specs ?cap = Finite (real_of_int T)"
      "?F \<le> T" "T \<le> ?F + int (length (fractions specs ?cap))" "T \<le> 2 ^ 53"
    using before_adjustment [OF cnt' n sz k] by blast
  have F0: "0 \<le> ?F"
    using b(3) by (simp add: sum_list_nonneg)
  have sz': "T - ?F \<le> 2 ^ 53"
    using b(8) F0 by linarith
  note r = finalFloors_reach [OF b(3,4,5,6,7) sz']
  have nl: "\<not> dless (targetTotal specs ?cap) (totalFloors specs ?cap)"
    using b(6) by (simp add: b(4,5))
  have "sum_list (map batch_count (finalizeTileBatches specs ?cap)) = T"
  proof (cases "S = 0")
    case True
    have "js_round 0 = 0"
      by (simp add: js_round_def)
    then have "T = 0"
      using b(2) True k(1) by (simp add: min_def)
    then show ?thesis
      using True by (simp add: finalizeTileBatches_def b(1))
  next
    case False
    then have e: "finalizeTileBatches specs ?cap =
        map (\<lambda>(s, c). mkBatch s c)
          (filter (\<lambda>(s, c). \<not> c \<le> 0) (zip specs (finalFloors specs ?cap)))"
      by (simp add: finalizeTileBatches_def b(1))
    show ?thesis
      unfolding e using batches_sum [OF r(2) [symmetric] r(3)] r(1) by simp
  qed
  then show ?thesis
    using b(1,2,5) nl r(1) by blast
qed

text \<open>
  C2, amended. For every list of tile specifications whose counts are non-negative
  doubles, at most \<open>2^20\<close> of them with counts adding up to at most \<open>2^52\<close>, and every
  cap that is an integer between 0 and \<open>2^30\<close>: the final batch counts sum to
  \<open>min cap (round sum)\<close> when the cap is positive and to \<open>round sum\<close> when the cap is 0.
  Here \<open>sum\<close> is \<open>sumCounts\<close>, the sum of the pre-cap counts as the code accumulates
  it in double precision, and \<open>round\<close> is \<open>Math.round\<close>. Every batch count is positive.
\<close>

theorem finalizeTileBatches_total:
  assumes "list_all (\<lambda>s. is_double (spec_count s) \<and> 0 \<le> spec_count s) specs"
    and "length specs \<le> 2 ^ 20" and "sum_list (map spec_count specs) \<le> 2 ^ 52"
    and "0 \<le> k" and "k \<le> 2 ^ 30"
  shows "(\<exists>S. sumCounts specs = Finite S
            \<and> sum_list (map batch_count (finalizeTileBatches specs (real_of_int k)))
                = (if 0 < k then min k (js_round S) else js_round S))
     \<and> list_all (\<lambda>b. 0 < batch_count b) (finalizeTileBatches specs (real_of_int k))"
proof -
  have cnt: "\<forall>s\<in>set specs. is_double (spec_count s) \<and> 0 \<le> spec_count s"
    using assms(1) by (simp add: list_all_iff)
  show ?thesis
    using finalizeTileBatches_sum [OF cnt assms(2-5)]
      finalizeTileBatches_positive [of specs "real_of_int k"] by blast
qed

section \<open>Cap and rounding: which entries change\<close>










lemma length_fold_removeUnit: "length (fold removeUnit fs fl) = length fl"
  by (induction fs arbitrary: fl) (simp_all add: removeUnit_def)






lemma dless_irrefl [simp]: "\<not> dless a a"
  by (cases a) simp_all







section \<open>Cap and rounding: concrete inputs\<close>

lemmas eval_defs = totalFloors_def baseFloors_def adjustedCounts_def scaleFor_def sumCounts_def
  mkSpec_def targetTotal_def scaledTotals_def js_round_def fractions_def fracOf_def enumerate_eq_zip
  sort_by_def slice0_def cmpLargestFirst_def cmpSmallestFirst_def finalFloors_def
  removeUnit_def addUnit_def Let_def dmin_def finalizeTileBatches_def mkBatch_def

lemma nearest_numeral: "numeral n \<le> (2::int) ^ 53 \<Longrightarrow> nearest (numeral n) = numeral n"
  using nearest_int [of "numeral n"] by simp

lemma nearest_one [simp]: "nearest 1 = 1"
  using nearest_int [of 1] by simp

text \<open>
  The roundings that occur for the default tiles with the caps 2.5, 164 and
  \<open>below_120\<close>, and for the fractional counts: the scale, the products of the counts
  with it, the remainders and the sums.
\<close>

lemma nearest_cap_half:
  "nearest (1 / 320) = 3602879701896397 / 1152921504606846976"
  "nearest (90071992547409925 / 72057594037927936) = 5 / 4"
  "nearest (270215977642229775 / 288230376151711744) = 15 / 16"
  "nearest (90071992547409925 / 288230376151711744) = 5 / 16"
  "nearest (1 / 4) = 1 / 4"
  "nearest (15 / 16) = 15 / 16"
  "nearest (5 / 16) = 5 / 16"
  "nearest (5 / 4) = 5 / 4"
  "nearest (35 / 16) = 35 / 16"
  "nearest (5 / 2) = 5 / 2"
  "nearest (3 / 2) = 3 / 2"
  by ((subst nearest_eval [of "-9"]; simp add: rne_def power_int_minus),
      (subst nearest_eval [of "0"]; simp add: rne_def power_int_minus),
      (subst nearest_eval [of "-1"]; simp add: rne_def power_int_minus),
      (subst nearest_eval [of "-2"]; simp add: rne_def power_int_minus),
      (subst nearest_eval [of "-2"]; simp add: rne_def power_int_minus),
      (subst nearest_eval [of "-1"]; simp add: rne_def power_int_minus),
      (subst nearest_eval [of "-2"]; simp add: rne_def power_int_minus),
      (subst nearest_eval [of "0"]; simp add: rne_def power_int_minus),
      (subst nearest_eval [of "1"]; simp add: rne_def power_int_minus),
      (subst nearest_eval [of "1"]; simp add: rne_def power_int_minus),
      (subst nearest_eval [of "0"]; simp add: rne_def power_int_minus))

lemma nearest_below_120:
  "nearest (below_120 / 800) = 5404319552844595 / 36028797018963968"
  "nearest (135107988821114875 / 2251799813685248) = 60"
  "nearest (405323966463344625 / 9007199254740992) = 45"
  "nearest (135107988821114875 / 9007199254740992) = 15"
  unfolding below_120_def
  by ((subst nearest_eval [of "-3"]; simp add: rne_def power_int_minus),
      (subst nearest_eval [of "5"]; simp add: rne_def power_int_minus),
      (subst nearest_eval [of "5"]; simp add: rne_def power_int_minus),
      (subst nearest_eval [of "3"]; simp add: rne_def power_int_minus))


lemma nearest_fractional:
  "nearest (5854679515581645 / 2251799813685248) = 5854679515581645 / 2251799813685248"
  "nearest (12610078956637389 / 2251799813685248) = 3152519739159347 / 562949953421312"
  "nearest (11709359031163289 / 1125899906842624) = 1463669878895411 / 140737488355328"
  "nearest (28147497671065597 / 2251799813685248) = 7036874417766399 / 562949953421312"
  "nearest (5404319552844595 / 1125899906842624) = 5404319552844595 / 1125899906842624"
  "nearest (4728779608739021 / 2251799813685248) = 4728779608739021 / 2251799813685248"
  "nearest (1351079888211149 / 2251799813685248) = 1351079888211149 / 2251799813685248"
  "nearest (900719925474099 / 1125899906842624) = 900719925474099 / 1125899906842624"
  "nearest (225179981368525 / 2251799813685248) = 225179981368525 / 2251799813685248"
  by ((subst nearest_eval [of "1"]; simp add: rne_def power_int_minus),
      (subst nearest_eval [of "2"]; simp add: rne_def power_int_minus),
      (subst nearest_eval [of "3"]; simp add: rne_def power_int_minus),
      (subst nearest_eval [of "3"]; simp add: rne_def power_int_minus),
      (subst nearest_eval [of "2"]; simp add: rne_def power_int_minus),
      (subst nearest_eval [of "1"]; simp add: rne_def power_int_minus),
      (subst nearest_eval [of "-1"]; simp add: rne_def power_int_minus),
      (subst nearest_eval [of "-1"]; simp add: rne_def power_int_minus),
      (subst nearest_eval [of "-4"]; simp add: rne_def power_int_minus))

text \<open>
  The default tiles with cap 2.5: the scaled counts are 1.25, 0.9375 and 0.3125, the
  floors sum to 1 and the target is 2.5; one unit goes to the second entry.
\<close>

lemma eval_cap_half:
  "sumCounts default_specs = Finite 800"
  "totalFloors default_specs (5 / 2) = Finite 1"
  "targetTotal default_specs (5 / 2) = Finite (5 / 2)"
  "fractions default_specs (5 / 2) = [(0, 1 / 4), (1, 15 / 16), (2, 5 / 16)]"
  "baseFloors default_specs (5 / 2) = [1, 0, 0]"
  "finalFloors default_specs (5 / 2) = [1, 1, 0]"
  "finalizeTileBatches default_specs (5 / 2)
     = [\<lparr>batch_w = 2, batch_h = 2, batch_count = 1\<rparr>, \<lparr>batch_w = 2, batch_h = 1, batch_count = 1\<rparr>]"
  by (simp_all add: default_specs_def eval_defs nearest_numeral nearest_cap_half dround_finite)


text \<open>
  The counts 2.6, 3, 4.8 and 2.1 without a cap: their double sum is 12.499999999999998,
  which rounds to 12, where the exact sum of the four decimal numbers is 12.5.
\<close>

lemma eval_fractional:
  "sumCounts fractional_specs = Finite (7036874417766399 / 562949953421312)"
  "finalFloors fractional_specs 0 = [2, 3, 5, 2]"
  by (simp_all add: fractional_specs_def eval_defs nearest_numeral nearest_fractional dround_finite)

text \<open>
  The default tiles with the cap \<open>below_120\<close>: the scale rounds to the double nearest
  to 0.15 and the three products round to 60, 45 and 15. The floors sum to 120, above
  the target, and no entry has a remainder.
\<close>

lemma eval_below_120:
  "totalFloors default_specs below_120 = Finite 120"
  "targetTotal default_specs below_120 = Finite below_120"
  "fractions default_specs below_120 = []"
  "baseFloors default_specs below_120 = [60, 45, 15]"
  "finalFloors default_specs below_120 = [60, 45, 15]"
  "finalizeTileBatches default_specs below_120
     = [\<lparr>batch_w = 2, batch_h = 2, batch_count = 60\<rparr>, \<lparr>batch_w = 2, batch_h = 1, batch_count = 45\<rparr>,
        \<lparr>batch_w = 1, batch_h = 1, batch_count = 15\<rparr>]"
proof -
  have c: "0 < below_120" "below_120 < 800" "below_120 < 120"
    by (simp_all add: below_120_def)
  have s: "sumCounts default_specs = Finite 800"
    by (simp add: default_specs_def eval_defs nearest_numeral dround_finite)
  have sc: "scaleFor default_specs below_120 = 5404319552844595 / 36028797018963968"
    using c by (simp add: scaleFor_def s nearest_below_120)
  have a: "adjustedCounts default_specs below_120 = [60, 45, 15]"
    unfolding adjustedCounts_def sc by (simp add: default_specs_def mkSpec_def nearest_below_120)
  show tf: "totalFloors default_specs below_120 = Finite 120"
    by (simp add: totalFloors_def a nearest_numeral dround_finite)
  show tg: "targetTotal default_specs below_120 = Finite below_120"
    using c by (simp add: targetTotal_def Let_def sc)
  show fr: "fractions default_specs below_120 = []"
    by (simp add: fractions_def a fracOf_def enumerate_eq_zip)
  show bf: "baseFloors default_specs below_120 = [60, 45, 15]"
    by (simp add: baseFloors_def a)
  show ff: "finalFloors default_specs below_120 = [60, 45, 15]"
    using c by (simp add: finalFloors_def Let_def tf tg fr bf sort_by_def slice0_def)
  show "finalizeTileBatches default_specs below_120
     = [\<lparr>batch_w = 2, batch_h = 2, batch_count = 60\<rparr>, \<lparr>batch_w = 2, batch_h = 1, batch_count = 45\<rparr>,
        \<lparr>batch_w = 1, batch_h = 1, batch_count = 15\<rparr>]"
    unfolding finalizeTileBatches_def s ff by (simp add: default_specs_def mkBatch_def mkSpec_def)
qed

text \<open>
  Two counts of \<open>2^1023\<close> with cap 100: the sum overflows to Infinity, the scale is
  \<open>100 / Infinity = 0\<close>, every adjusted count is 0 and no batch is left.
\<close>

lemma eval_overflow:
  "sumCounts [mkSpec 1 1 huge_count, mkSpec 1 1 huge_count] = PInf"
  "finalizeTileBatches [mkSpec 1 1 huge_count, mkSpec 1 1 huge_count] 100 = []"
proof -
  have p: "nearest huge_count = huge_count" "nearest (2 * huge_count) = 2 ^ 1024"
    using nearest_pow2 [of 1023] nearest_pow2 [of 1024] by (simp_all add: huge_count_def)
  have lt: "huge_count < 2 ^ 1024" "- (2 ^ 1024) < huge_count"
    by (simp_all add: huge_count_def)
  have d1: "dround huge_count = Finite huge_count"
    unfolding dround_def Let_def p using lt by (simp only: not_le [symmetric] if_False)
  have d2: "dround (2 * huge_count) = PInf"
    unfolding dround_def Let_def p by (simp only: order_refl if_True)
  show s: "sumCounts [mkSpec 1 1 huge_count, mkSpec 1 1 huge_count] = PInf"
    unfolding sumCounts_def mkSpec_def by (simp add: d1) (simp only: d2)
  have sc: "scaleFor [mkSpec 1 1 huge_count, mkSpec 1 1 huge_count] 100 = 0"
    by (simp add: scaleFor_def s)
  have a: "adjustedCounts [mkSpec 1 1 huge_count, mkSpec 1 1 huge_count] 100 = [0, 0]"
    by (simp add: adjustedCounts_def sc)
  have "finalFloors [mkSpec 1 1 huge_count, mkSpec 1 1 huge_count] 100 = [0, 0]"
    by (simp add: finalFloors_def Let_def totalFloors_def targetTotal_def baseFloors_def
        fractions_def enumerate_eq_zip a sc sort_by_def slice0_def)
  then show "finalizeTileBatches [mkSpec 1 1 huge_count, mkSpec 1 1 huge_count] 100 = []"
    by (simp add: finalizeTileBatches_def s)
qed

text \<open>
  A request without a tile list, legacy counts or multiplier reaches
  \<open>finalizeTileBatches\<close> with the default tiles and its cap.
\<close>

lemma finalizeSpecs_default:
  "finalizeSpecs demo_ext (demo_params\<lparr>p_cap := c\<rparr>) = Inr (finalizeTileBatches default_specs c)"
  by (simp add: finalizeSpecs_def parseTileList_def js_trim_def demo_params_def
      applyLegacyTiles_def applyLegacyEntry_def activateMultiplier_def default_specs_def)

text \<open>
  C2, as stated, fails in three ways, each on a request that \<open>generateMap\<close> accepts.
  \<^item> A cap that is not an integer: the default tiles with cap 2.5 give two batches of
    one tile, a total of 2, while \<open>min cap (round sum)\<close> is 2.5.
  \<^item> A cap just below an integer: the default tiles with cap 119.99999999999999 give
    batches of 60, 45 and 15 tiles, a total of 120, which exceeds the cap.
  \<^item> A sum that overflows: the tile list \<open>1x1*8.98846567431158e307\<close> twice with cap 100
    gives no batch at all, a total of 0, while \<open>min cap (round sum)\<close> is 100.
\<close>

theorem cap_counterexample:
  "finalizeSpecs demo_ext (demo_params\<lparr>p_cap := 5 / 2\<rparr>)
     = Inr [\<lparr>batch_w = 2, batch_h = 2, batch_count = 1\<rparr>, \<lparr>batch_w = 2, batch_h = 1, batch_count = 1\<rparr>]
   \<and> sumCounts default_specs = Finite 800
   \<and> sum_list (map batch_count (finalizeTileBatches default_specs (5 / 2))) = 2
   \<and> min (5 / 2) (real_of_int (js_round 800)) = 5 / 2
   \<and> finalizeSpecs demo_ext (demo_params\<lparr>p_cap := below_120\<rparr>)
       = Inr [\<lparr>batch_w = 2, batch_h = 2, batch_count = 60\<rparr>, \<lparr>batch_w = 2, batch_h = 1, batch_count = 45\<rparr>,
              \<lparr>batch_w = 1, batch_h = 1, batch_count = 15\<rparr>]
   \<and> sum_list (map batch_count (finalizeTileBatches default_specs below_120)) = 120
   \<and> below_120 < 120
   \<and> sumCounts [mkSpec 1 1 huge_count, mkSpec 1 1 huge_count] = PInf
   \<and> finalizeTileBatches [mkSpec 1 1 huge_count, mkSpec 1 1 huge_count] 100 = []"
proof -
  have "below_120 < 120"
    by (simp add: below_120_def)
  then show ?thesis
    by (simp add: finalizeSpecs_default eval_cap_half(1,7) eval_below_120(6) eval_overflow
        js_round_def)
qed

theorem finalizeTileBatches_total_witness:
  "(list_all (\<lambda>s. is_double (spec_count s) \<and> 0 \<le> spec_count s) fractional_specs
     \<and> length fractional_specs \<le> 2 ^ 20
     \<and> sum_list (map spec_count fractional_specs) \<le> 2 ^ 52
     \<and> (0::int) \<le> 0 \<and> (0::int) \<le> 2 ^ 30)
   \<and> sumCounts fractional_specs = Finite (7036874417766399 / 562949953421312)
   \<and> sum_list (map batch_count (finalizeTileBatches fractional_specs (real_of_int 0))) = 12
   \<and> (list_all (\<lambda>s. is_double (spec_count s) \<and> 0 \<le> spec_count s) [mkSpec 2 2 10000]
     \<and> length [mkSpec 2 2 10000] \<le> 2 ^ 20
     \<and> sum_list (map spec_count [mkSpec 2 2 10000]) \<le> 2 ^ 52
     \<and> (0::int) \<le> 100 \<and> (100::int) \<le> 2 ^ 30)
   \<and> sum_list (map batch_count (finalizeTileBatches [mkSpec 2 2 10000] (real_of_int 100))) = 100"
proof -
  have d: "is_double (5854679515581645 / 2251799813685248)" "is_double 3"
    "is_double (5404319552844595 / 1125899906842624)"
    "is_double (4728779608739021 / 2251799813685248)" "is_double 10000"
    by (simp_all add: is_double_def nearest_fractional nearest_numeral)
  have f: "list_all (\<lambda>s. is_double (spec_count s) \<and> 0 \<le> spec_count s) fractional_specs"
    "length fractional_specs \<le> 2 ^ 20"
    "sum_list (map spec_count fractional_specs) \<le> 2 ^ 52"
    by (simp_all add: fractional_specs_def mkSpec_def d)
  have h: "list_all (\<lambda>s. is_double (spec_count s) \<and> 0 \<le> spec_count s) [mkSpec 2 2 10000]"
    "length [mkSpec 2 2 10000] \<le> 2 ^ 20"
    "sum_list (map spec_count [mkSpec 2 2 10000]) \<le> 2 ^ 52"
    by (simp_all add: mkSpec_def d)
  have s: "sumCounts [mkSpec 2 2 10000] = Finite 10000"
    by (simp add: sumCounts_def mkSpec_def nearest_numeral dround_finite)
  have r: "js_round (7036874417766399 / 562949953421312) = 12"
    by (simp add: js_round_def)
  have t1: "sum_list (map batch_count (finalizeTileBatches fractional_specs (real_of_int 0))) = 12"
  proof -
    obtain S where S: "sumCounts fractional_specs = Finite S"
        "sum_list (map batch_count (finalizeTileBatches fractional_specs (real_of_int 0)))
           = (if (0::int) < 0 then min 0 (js_round S) else js_round S)"
      using finalizeTileBatches_total [OF f, of 0] by auto
    have Sv: "S = 7036874417766399 / 562949953421312"
      using S(1) unfolding eval_fractional(1) by simp
    show ?thesis
      unfolding S(2) Sv r by simp
  qed
  have t2: "sum_list (map batch_count (finalizeTileBatches [mkSpec 2 2 10000] (real_of_int 100))) = 100"
    using finalizeTileBatches_total [OF h, of 100] by (simp add: s js_round_def)
  show ?thesis
    using f h t1 t2 eval_fractional(1) by simp
qed



end
